theory Spec2Isabelle
  imports Main "HOL-Library.Sublist"
begin

section \<open>Collaborators outside the repository\<close>

text \<open>
  The checked code lives in \<^verbatim>\<open>packages/kit/src/vite/utils.js\<close> and
  \<^verbatim>\<open>packages/kit/src/vite/dev/index.js\<close>. It calls Node's \<^verbatim>\<open>path\<close> module,
  \<^verbatim>\<open>process.cwd()\<close> and Vite's \<^verbatim>\<open>normalizePath\<close>. None of these is code of the
  repository, so they are parameters of the model, gathered in one record. Nothing below
  depends on what they compute.
\<close>

record host =
  normalizePath :: "string \<Rightarrow> string"
  path_join :: "string \<Rightarrow> string \<Rightarrow> string"
  path_relative :: "string \<Rightarrow> string \<Rightarrow> string"
  path_extname :: "string \<Rightarrow> string"
  path_dirname :: "string \<Rightarrow> string"
  path_basename :: "string \<Rightarrow> string"
  process_cwd :: string

text \<open>A thrown \<^verbatim>\<open>Error\<close>, with its message.\<close>

datatype js_error = Error string

section \<open>The import-boundary checker over the build-time graph\<close>

subsection \<open>Data\<close>

text \<open>
  An element of an import chain (\<^verbatim>\<open>{name, dynamic}\<close>), and the three fields of Rollup's
  \<^verbatim>\<open>ModuleInfo\<close> that the checker reads. The field \<^verbatim>\<open>id\<close> is called \<open>module_id\<close>
  here, because \<open>id\<close> is HOL's identity function.
\<close>

record ImportNode =
  name :: string
  dynamic :: bool

record ModuleInfo =
  module_id :: string
  importedIds :: "string list"
  dynamicallyImportedIds :: "string list"

text \<open>
  \<^verbatim>\<open>node_getter\<close> is a function \<^verbatim>\<open>(id) => ModuleInfo | null\<close>. A build has finitely many
  modules, so the function is given by a finite table; an id the table does not hold is
  answered with \<^verbatim>\<open>null\<close>.
\<close>

type_synonym node_table = "(string \<times> ModuleInfo) list"

definition node_getter :: "node_table \<Rightarrow> string \<Rightarrow> ModuleInfo option" where
  "node_getter g i = map_of g i"

subsection \<open>\<^verbatim>\<open>find_illegal_rollup_imports\<close>\<close>

text \<open>
  The source mutates the set \<^verbatim>\<open>seen\<close>, which all recursive calls share. The model
  passes the set in and returns it with the result. The two \<^verbatim>\<open>for\<close> loops are
  \<open>rollup_children\<close>, called with \<open>False\<close> for \<^verbatim>\<open>node.importedIds\<close> and with
  \<open>True\<close> for \<^verbatim>\<open>node.dynamicallyImportedIds\<close>; the loop hands the chain of the first
  child that has one back to the caller, which puts its own entry in front. A child
  that \<^verbatim>\<open>node_getter\<close> does not know is skipped (\<^verbatim>\<open>child && ...\<close>).
\<close>

function find_illegal_rollup_imports ::
    "host \<Rightarrow> node_table \<Rightarrow> ModuleInfo \<Rightarrow> bool \<Rightarrow> string set \<Rightarrow> string set
      \<Rightarrow> ImportNode list option \<times> string set"
  and rollup_children ::
    "host \<Rightarrow> node_table \<Rightarrow> string list \<Rightarrow> bool \<Rightarrow> string set \<Rightarrow> string set
      \<Rightarrow> ImportNode list option \<times> string set"
where
  "find_illegal_rollup_imports h g node dyn illegal_imports seen =
     (let nm = normalizePath h (module_id node) in
      if nm \<in> seen then (None, seen)
      else if nm \<in> illegal_imports
        then (Some [\<lparr>name = nm, dynamic = dyn\<rparr>], insert nm seen)
      else
        (case rollup_children h g (importedIds node) False illegal_imports (insert nm seen) of
           (Some chain, seen2) \<Rightarrow> (Some (\<lparr>name = nm, dynamic = dyn\<rparr> # chain), seen2)
         | (None, seen2) \<Rightarrow>
             (case rollup_children h g (dynamicallyImportedIds node) True illegal_imports seen2 of
                (Some chain, seen3) \<Rightarrow> (Some (\<lparr>name = nm, dynamic = dyn\<rparr> # chain), seen3)
              | (None, seen3) \<Rightarrow> (None, seen3 - {nm}))))"
| "rollup_children h g [] dyn illegal_imports seen = (None, seen)"
| "rollup_children h g (i # ids) dyn illegal_imports seen =
     (case node_getter g i of
        None \<Rightarrow> rollup_children h g ids dyn illegal_imports seen
      | Some child \<Rightarrow>
          (case find_illegal_rollup_imports h g child dyn illegal_imports seen of
             (Some chain, seen') \<Rightarrow> (Some chain, seen')
           | (None, seen') \<Rightarrow> rollup_children h g ids dyn illegal_imports seen'))"
  by pat_completeness auto

text \<open>
  Termination. A call that returns no chain leaves \<^verbatim>\<open>seen\<close> as it found it, so while a
  node's children are visited the node's own name stays in the set; each nested call
  therefore has fewer names of the table left outside \<^verbatim>\<open>seen\<close>.
\<close>

definition graph_names :: "host \<Rightarrow> node_table \<Rightarrow> string set" where
  "graph_names h g = (\<lambda>p. normalizePath h (module_id (snd p))) ` set g"

lemma finite_graph_names: "finite (graph_names h g)"
  by (simp add: graph_names_def)

lemma node_getter_name:
  "node_getter g i = Some child \<Longrightarrow> normalizePath h (module_id child) \<in> graph_names h g"
  unfolding node_getter_def graph_names_def by (force dest: map_of_SomeD)

lemma rollup_restore_partial:
  "find_illegal_rollup_imports_rollup_children_dom (Inl (h, g, node, dyn, illegal, seen)) \<Longrightarrow>
     fst (find_illegal_rollup_imports h g node dyn illegal seen) = None \<Longrightarrow>
     snd (find_illegal_rollup_imports h g node dyn illegal seen) = seen"
  "find_illegal_rollup_imports_rollup_children_dom (Inr (h, g, ids, dyn, illegal, seen)) \<Longrightarrow>
     fst (rollup_children h g ids dyn illegal seen) = None \<Longrightarrow>
     snd (rollup_children h g ids dyn illegal seen) = seen"
proof (induction rule: find_illegal_rollup_imports_rollup_children.pinduct)
  case (1 h g node dyn illegal seen)
  then show ?case
    by (auto simp: find_illegal_rollup_imports.psimps Let_def
        split: if_splits prod.splits option.splits)
next
  case (2 h g dyn illegal seen)
  then show ?case by (simp add: rollup_children.psimps)
next
  case (3 h g i ids dyn illegal seen)
  then show ?case
    by (auto simp: rollup_children.psimps split: prod.splits option.splits)
qed

lemma card_names_step:
  "finite N \<Longrightarrow> x \<notin> S \<Longrightarrow> card (N - insert x S) < card (insert x N - S)"
  by (rule psubset_card_mono) auto

termination find_illegal_rollup_imports
proof (relation "measures
    [\<lambda>x. case x of
            Inl (h, g, node, dyn, illegal, seen) \<Rightarrow>
              card (insert (normalizePath h (module_id node)) (graph_names h g) - seen)
          | Inr (h, g, ids, dyn, illegal, seen) \<Rightarrow> card (graph_names h g - seen),
     \<lambda>x. case x of
            Inl _ \<Rightarrow> 0
          | Inr (h, g, ids, dyn, illegal, seen) \<Rightarrow> Suc (length ids)]",
    goal_cases)
  case 1
  then show ?case by simp
next
  case (2 h g node dyn illegal seen x)
  then show ?case by (simp add: card_names_step finite_graph_names)
next
  case (3 h g node dyn illegal seen x xa y)
  from 3(4,5)
  have "fst (rollup_children h g (importedIds node) False illegal (insert x seen)) = None"
    and "y = snd (rollup_children h g (importedIds node) False illegal (insert x seen))"
    by (simp_all flip: 3(4))
  with 3(6) have "y = insert x seen"
    by (simp add: rollup_restore_partial(2))
  with 3(1,2) show ?case by (simp add: card_names_step finite_graph_names)
next
  case (4 h g i ids dyn illegal seen)
  then show ?case by simp
next
  case (5 h g i ids dyn illegal seen x2)
  then show ?case by (simp add: insert_absorb node_getter_name)
next
  case (6 h g i ids dyn illegal seen x2 x y)
  from 6(2,3)
  have "fst (find_illegal_rollup_imports h g x2 dyn illegal seen) = None"
    and "y = snd (find_illegal_rollup_imports h g x2 dyn illegal seen)"
    by (simp_all flip: 6(2))
  with 6(4) have "y = seen"
    by (simp add: rollup_restore_partial(1))
  then show ?case by simp
qed

declare find_illegal_rollup_imports.simps [simp del]

subsection \<open>The graph the checker walks\<close>

text \<open>
  A node's canonical name is its normalised id. A node imports another when one of its
  ids resolves to it through \<^verbatim>\<open>node_getter\<close>; an id that does not resolve is no
  edge, the checker skips it.
\<close>

definition node_name :: "host \<Rightarrow> ModuleInfo \<Rightarrow> string" where
  "node_name h n = normalizePath h (module_id n)"

definition static_edge :: "node_table \<Rightarrow> ModuleInfo \<Rightarrow> ModuleInfo \<Rightarrow> bool" where
  "static_edge g n c = (\<exists>i \<in> set (importedIds n). node_getter g i = Some c)"

definition dynamic_edge :: "node_table \<Rightarrow> ModuleInfo \<Rightarrow> ModuleInfo \<Rightarrow> bool" where
  "dynamic_edge g n c = (\<exists>i \<in> set (dynamicallyImportedIds n). node_getter g i = Some c)"

definition import_edge :: "node_table \<Rightarrow> ModuleInfo \<Rightarrow> ModuleInfo \<Rightarrow> bool" where
  "import_edge g n c = (static_edge g n c \<or> dynamic_edge g n c)"

subsection \<open>How \<^verbatim>\<open>seen\<close> and the result of a call relate\<close>

lemma rollup_restore:
  "fst (find_illegal_rollup_imports h g node dyn illegal seen) = None \<Longrightarrow>
     snd (find_illegal_rollup_imports h g node dyn illegal seen) = seen"
  "fst (rollup_children h g ids dyn illegal seen) = None \<Longrightarrow>
     snd (rollup_children h g ids dyn illegal seen) = seen"
proof (induction h g node dyn illegal seen and h g ids dyn illegal seen
    rule: find_illegal_rollup_imports_rollup_children.induct)
  case (1 h g node dyn illegal seen)
  then show ?case
    by (auto simp: find_illegal_rollup_imports.simps Let_def
        split: if_splits prod.splits option.splits)
next
  case (2 h g dyn illegal seen)
  then show ?case by simp
next
  case (3 h g i ids dyn illegal seen)
  then show ?case
    by (auto split: prod.splits option.splits)
qed

lemma rollup_children_None:
  "fst (rollup_children h g ids dyn illegal seen) = None \<Longrightarrow> i \<in> set ids \<Longrightarrow>
     node_getter g i = Some c \<Longrightarrow>
     fst (find_illegal_rollup_imports h g c dyn illegal seen) = None"
proof (induction ids)
  case Nil
  then show ?case by simp
next
  case (Cons j ids)
  show ?case
  proof (cases "node_getter g j")
    case None
    with Cons show ?thesis by auto
  next
    case (Some child)
    obtain r s where r: "find_illegal_rollup_imports h g child dyn illegal seen = (r, s)"
      by (cases "find_illegal_rollup_imports h g child dyn illegal seen")
    show ?thesis
    proof (cases r)
      case None
      with r have "s = seen" using rollup_restore(1)[of h g child dyn illegal seen] by simp
      with Cons Some r None show ?thesis by auto
    next
      case (Some ch)
      with Cons \<open>node_getter g j = Some child\<close> r show ?thesis by simp
    qed
  qed
qed

lemma rollup_children_Some:
  "fst (rollup_children h g ids dyn illegal seen) = Some ch \<Longrightarrow>
     \<exists>i \<in> set ids. \<exists>c. node_getter g i = Some c \<and>
        fst (find_illegal_rollup_imports h g c dyn illegal seen) = Some ch"
proof (induction ids)
  case Nil
  then show ?case by simp
next
  case (Cons j ids)
  show ?case
  proof (cases "node_getter g j")
    case None
    with Cons show ?thesis by auto
  next
    case (Some child)
    obtain r s where r: "find_illegal_rollup_imports h g child dyn illegal seen = (r, s)"
      by (cases "find_illegal_rollup_imports h g child dyn illegal seen")
    show ?thesis
    proof (cases r)
      case None
      with r have "s = seen" using rollup_restore(1)[of h g child dyn illegal seen] by simp
      with Cons Some r None show ?thesis by auto
    next
      case (Some ch')
      with Cons \<open>node_getter g j = Some child\<close> r show ?thesis by auto
    qed
  qed
qed

lemma rollup_children_None_iff:
  "fst (rollup_children h g ids dyn illegal seen) = None \<longleftrightarrow>
     (\<forall>i \<in> set ids. \<forall>c. node_getter g i = Some c \<longrightarrow>
        fst (find_illegal_rollup_imports h g c dyn illegal seen) = None)"
proof
  assume "fst (rollup_children h g ids dyn illegal seen) = None"
  then show "\<forall>i \<in> set ids. \<forall>c. node_getter g i = Some c \<longrightarrow>
        fst (find_illegal_rollup_imports h g c dyn illegal seen) = None"
    by (blast intro: rollup_children_None)
next
  assume a: "\<forall>i \<in> set ids. \<forall>c. node_getter g i = Some c \<longrightarrow>
        fst (find_illegal_rollup_imports h g c dyn illegal seen) = None"
  show "fst (rollup_children h g ids dyn illegal seen) = None"
  proof (rule ccontr)
    assume "fst (rollup_children h g ids dyn illegal seen) \<noteq> None"
    then obtain ch where "fst (rollup_children h g ids dyn illegal seen) = Some ch" by auto
    from rollup_children_Some[OF this] a show False by auto
  qed
qed

lemma find_flag_irrelevant:
  "fst (find_illegal_rollup_imports h g n d illegal seen) = None \<longleftrightarrow>
   fst (find_illegal_rollup_imports h g n d' illegal seen) = None"
  by (simp add: find_illegal_rollup_imports.simps Let_def split: prod.splits option.splits)


lemma find_None_iff:
  "fst (find_illegal_rollup_imports h g n d illegal seen) = None \<longleftrightarrow>
     node_name h n \<in> seen \<or>
     (node_name h n \<notin> illegal \<and>
      (\<forall>c. static_edge g n c \<longrightarrow>
         fst (find_illegal_rollup_imports h g c False illegal (insert (node_name h n) seen)) = None) \<and>
      (\<forall>c. dynamic_edge g n c \<longrightarrow>
         fst (find_illegal_rollup_imports h g c True illegal (insert (node_name h n) seen)) = None))"
proof (cases "node_name h n \<in> seen \<or> node_name h n \<in> illegal")
  case True
  then show ?thesis
    by (auto simp: find_illegal_rollup_imports.simps[of h g n] node_name_def Let_def)
next
  case False
  let ?S = "insert (node_name h n) seen"
  obtain r s where st: "rollup_children h g (importedIds n) False illegal ?S = (r, s)"
    by (cases "rollup_children h g (importedIds n) False illegal ?S")
  show ?thesis
  proof (cases r)
    case None
    with st have s: "s = ?S"
      using rollup_restore(2)[of h g "importedIds n" False illegal ?S] by simp
    from st None have stN: "fst (rollup_children h g (importedIds n) False illegal ?S) = None"
      by simp
    have "fst (find_illegal_rollup_imports h g n d illegal seen) = None \<longleftrightarrow>
        fst (rollup_children h g (dynamicallyImportedIds n) True illegal ?S) = None"
      using False st None s
      by (simp add: find_illegal_rollup_imports.simps[of h g n] node_name_def Let_def
          split: prod.splits option.splits)
    with stN False show ?thesis
      unfolding rollup_children_None_iff static_edge_def dynamic_edge_def by blast
  next
    case (Some ch)
    with st have stS: "fst (rollup_children h g (importedIds n) False illegal ?S) \<noteq> None"
      by simp
    have "fst (find_illegal_rollup_imports h g n d illegal seen) \<noteq> None"
      using False st Some
      by (simp add: find_illegal_rollup_imports.simps[of h g n] node_name_def Let_def)
    with stS False show ?thesis
      unfolding rollup_children_None_iff static_edge_def by blast
  qed
qed

lemma find_Some_cases:
  assumes "fst (find_illegal_rollup_imports h g n d illegal seen) = Some ch"
  shows "node_name h n \<notin> seen \<and>
    ((node_name h n \<in> illegal \<and> ch = [\<lparr>name = node_name h n, dynamic = d\<rparr>]) \<or>
     (node_name h n \<notin> illegal \<and>
      (\<exists>c ch'. ch = \<lparr>name = node_name h n, dynamic = d\<rparr> # ch' \<and> static_edge g n c \<and>
         fst (find_illegal_rollup_imports h g c False illegal (insert (node_name h n) seen)) = Some ch')) \<or>
     (node_name h n \<notin> illegal \<and>
      (\<exists>c ch'. ch = \<lparr>name = node_name h n, dynamic = d\<rparr> # ch' \<and> dynamic_edge g n c \<and>
         \<not> static_edge g n c \<and>
         (\<forall>c'. static_edge g n c' \<longrightarrow>
            fst (find_illegal_rollup_imports h g c' False illegal (insert (node_name h n) seen)) = None) \<and>
         fst (find_illegal_rollup_imports h g c True illegal (insert (node_name h n) seen)) = Some ch')))"
proof -
  let ?S = "insert (node_name h n) seen"
  let ?e = "\<lparr>name = node_name h n, dynamic = d\<rparr>"
  from assms have ns: "node_name h n \<notin> seen"
    by (auto simp: find_illegal_rollup_imports.simps[of h g n] node_name_def Let_def)
  show ?thesis
  proof (cases "node_name h n \<in> illegal")
    case True
    with assms ns show ?thesis
      by (auto simp: find_illegal_rollup_imports.simps[of h g n] node_name_def Let_def)
  next
    case False
    obtain r s where st: "rollup_children h g (importedIds n) False illegal ?S = (r, s)"
      by (cases "rollup_children h g (importedIds n) False illegal ?S")
    show ?thesis
    proof (cases r)
      case (Some ch')
      with assms ns False st have ch: "ch = ?e # ch'"
        by (auto simp: find_illegal_rollup_imports.simps[of h g n] node_name_def Let_def)
      from st Some have "fst (rollup_children h g (importedIds n) False illegal ?S) = Some ch'"
        by simp
      from rollup_children_Some[OF this] obtain c where "static_edge g n c"
        "fst (find_illegal_rollup_imports h g c False illegal ?S) = Some ch'"
        unfolding static_edge_def by blast
      with ns False ch show ?thesis by blast
    next
      case None
      with st have s: "s = ?S"
        using rollup_restore(2)[of h g "importedIds n" False illegal ?S] by simp
      from st None have stN: "fst (rollup_children h g (importedIds n) False illegal ?S) = None"
        by simp
      obtain r2 s2 where dy: "rollup_children h g (dynamicallyImportedIds n) True illegal ?S = (r2, s2)"
        by (cases "rollup_children h g (dynamicallyImportedIds n) True illegal ?S")
      from assms ns False st None s dy obtain ch' where r2: "r2 = Some ch'" and ch: "ch = ?e # ch'"
        by (auto simp: find_illegal_rollup_imports.simps[of h g n] node_name_def Let_def
            split: option.splits)
      from dy r2 have "fst (rollup_children h g (dynamicallyImportedIds n) True illegal ?S) = Some ch'"
        by simp
      from rollup_children_Some[OF this] obtain c where c: "dynamic_edge g n c"
        "fst (find_illegal_rollup_imports h g c True illegal ?S) = Some ch'"
        unfolding dynamic_edge_def by blast
      from stN have allN: "\<forall>c'. static_edge g n c' \<longrightarrow>
          fst (find_illegal_rollup_imports h g c' False illegal ?S) = None"
        unfolding rollup_children_None_iff static_edge_def by blast
      have "\<not> static_edge g n c"
      proof
        assume "static_edge g n c"
        with allN have "fst (find_illegal_rollup_imports h g c False illegal ?S) = None"
          by blast
        then have "fst (find_illegal_rollup_imports h g c True illegal ?S) = None"
          using find_flag_irrelevant by blast
        with c(2) show False by simp
      qed
      with ns False ch c allN show ?thesis by blast
    qed
  qed
qed


subsection \<open>Chains, reachability, soundness and completeness\<close>

text \<open>
  \<open>import_chain h g illegal n d chain\<close>: the chain starts at \<open>n\<close>, tagged \<open>d\<close>, and
  follows import edges down to the first node whose name is forbidden. An entry after
  the first is tagged \<open>False\<close> when its node is one of the parent's static imports, and
  \<open>True\<close> when the parent imports it dynamically and not statically.
\<close>

inductive import_chain ::
    "host \<Rightarrow> node_table \<Rightarrow> string set \<Rightarrow> ModuleInfo \<Rightarrow> bool \<Rightarrow> ImportNode list \<Rightarrow> bool"
  for h g illegal
where
  chain_end:
    "node_name h n \<in> illegal \<Longrightarrow>
     import_chain h g illegal n d [\<lparr>name = node_name h n, dynamic = d\<rparr>]"
| chain_static:
    "node_name h n \<notin> illegal \<Longrightarrow> static_edge g n c \<Longrightarrow>
     import_chain h g illegal c False ch \<Longrightarrow>
     import_chain h g illegal n d (\<lparr>name = node_name h n, dynamic = d\<rparr> # ch)"
| chain_dynamic:
    "node_name h n \<notin> illegal \<Longrightarrow> dynamic_edge g n c \<Longrightarrow> \<not> static_edge g n c \<Longrightarrow>
     import_chain h g illegal c True ch \<Longrightarrow>
     import_chain h g illegal n d (\<lparr>name = node_name h n, dynamic = d\<rparr> # ch)"

text \<open>
  \<open>reaches_avoiding h g illegal S n\<close>: some path of import edges leads from \<open>n\<close> to a
  forbidden node without touching a name of \<open>S\<close>. With \<open>S\<close> the names on the
  recursion stack, this is what one call of the checker decides.
\<close>

inductive reaches_avoiding ::
    "host \<Rightarrow> node_table \<Rightarrow> string set \<Rightarrow> string set \<Rightarrow> ModuleInfo \<Rightarrow> bool"
  for h g illegal S
where
  avoid_here:
    "node_name h n \<notin> S \<Longrightarrow> node_name h n \<in> illegal \<Longrightarrow> reaches_avoiding h g illegal S n"
| avoid_step:
    "node_name h n \<notin> S \<Longrightarrow> import_edge g n c \<Longrightarrow> reaches_avoiding h g illegal S c \<Longrightarrow>
     reaches_avoiding h g illegal S n"

definition reaches_illegal :: "host \<Rightarrow> node_table \<Rightarrow> string set \<Rightarrow> ModuleInfo \<Rightarrow> bool" where
  "reaches_illegal h g illegal root =
     (\<exists>m. (import_edge g)\<^sup>*\<^sup>* root m \<and> node_name h m \<in> illegal)"

definition graph_nodes :: "node_table \<Rightarrow> ModuleInfo \<Rightarrow> ModuleInfo set" where
  "graph_nodes g root = insert root (ran (node_getter g))"

lemma find_sound:
  "fst (find_illegal_rollup_imports h g n d illegal seen) = Some ch \<Longrightarrow>
     import_chain h g illegal n d ch"
proof (induction ch arbitrary: n d seen)
  case Nil
  from find_Some_cases[OF Nil] show ?case by simp
next
  case (Cons e ch)
  let ?S = "insert (node_name h n) seen"
  from find_Some_cases[OF Cons.prems] consider
    (a) "node_name h n \<in> illegal" "e # ch = [\<lparr>name = node_name h n, dynamic = d\<rparr>]"
    | (b) c where "node_name h n \<notin> illegal" "e = \<lparr>name = node_name h n, dynamic = d\<rparr>"
        "static_edge g n c" "fst (find_illegal_rollup_imports h g c False illegal ?S) = Some ch"
    | (c) c where "node_name h n \<notin> illegal" "e = \<lparr>name = node_name h n, dynamic = d\<rparr>"
        "dynamic_edge g n c" "\<not> static_edge g n c"
        "fst (find_illegal_rollup_imports h g c True illegal ?S) = Some ch"
    by blast
  then show ?case
  proof cases
    case a
    then show ?thesis using chain_end[of h n illegal g d] by simp
  next
    case b
    from Cons.IH[OF b(4)] b(1,2,3) show ?thesis by (simp add: chain_static)
  next
    case c
    from Cons.IH[OF c(5)] c(1,2,3,4) show ?thesis by (simp add: chain_dynamic)
  qed
qed

lemma reaches_illegal_step:
  "import_edge g n c \<Longrightarrow> reaches_illegal h g illegal c \<Longrightarrow> reaches_illegal h g illegal n"
  unfolding reaches_illegal_def by (blast intro: converse_rtranclp_into_rtranclp)

lemma reaches_illegal_here:
  "node_name h n \<in> illegal \<Longrightarrow> reaches_illegal h g illegal n"
  unfolding reaches_illegal_def by blast

lemma import_chain_reaches:
  "import_chain h g illegal n d ch \<Longrightarrow> reaches_illegal h g illegal n"
proof (induction rule: import_chain.induct)
  case (chain_end n d)
  then show ?case by (rule reaches_illegal_here)
next
  case (chain_static n c ch d)
  from chain_static.hyps(2) have "import_edge g n c" by (simp add: import_edge_def)
  with chain_static.IH show ?case by (blast intro: reaches_illegal_step)
next
  case (chain_dynamic n c ch d)
  from chain_dynamic.hyps(2) have "import_edge g n c" by (simp add: import_edge_def)
  with chain_dynamic.IH show ?case by (blast intro: reaches_illegal_step)
qed

lemma reaches_avoiding_empty:
  "reaches_avoiding h g illegal {} n \<longleftrightarrow> reaches_illegal h g illegal n"
proof
  assume "reaches_avoiding h g illegal {} n"
  then show "reaches_illegal h g illegal n"
  proof (induction rule: reaches_avoiding.induct)
    case (avoid_here n)
    then show ?case by (simp add: reaches_illegal_here)
  next
    case (avoid_step n c)
    then show ?case by (blast intro: reaches_illegal_step)
  qed
next
  assume "reaches_illegal h g illegal n"
  then obtain m where "(import_edge g)\<^sup>*\<^sup>* n m" and m: "node_name h m \<in> illegal"
    unfolding reaches_illegal_def by blast
  then show "reaches_avoiding h g illegal {} n"
  proof (induction rule: converse_rtranclp_induct)
    case base
    then show ?case by (simp add: avoid_here)
  next
    case (step y z)
    then show ?case by (simp add: avoid_step)
  qed
qed

lemma reaches_avoiding_not_seen:
  "reaches_avoiding h g illegal S n \<Longrightarrow> node_name h n \<notin> S"
  by (erule reaches_avoiding.cases) auto

lemma import_edge_graph_nodes: "import_edge g a b \<Longrightarrow> b \<in> graph_nodes g root"
  unfolding import_edge_def static_edge_def dynamic_edge_def graph_nodes_def ran_def
  by auto

lemma finite_graph_nodes: "finite (graph_nodes g root)"
  unfolding graph_nodes_def node_getter_def
  by (simp add: finite_ran finite_dom_map_of)

lemma last_visit:
  assumes inj: "inj_on (node_name h) (graph_nodes g root)"
    and n: "n \<in> graph_nodes g root" and nill: "node_name h n \<notin> illegal"
  shows "reaches_avoiding h g illegal S m \<Longrightarrow> m \<in> graph_nodes g root \<Longrightarrow>
     reaches_avoiding h g illegal (insert (node_name h n) S) m \<or>
     (\<exists>c. import_edge g n c \<and> reaches_avoiding h g illegal (insert (node_name h n) S) c)"
proof (induction rule: reaches_avoiding.induct)
  case (avoid_here m)
  show ?case
  proof (cases "node_name h m = node_name h n")
    case True
    with avoid_here nill show ?thesis by simp
  next
    case False
    with avoid_here show ?thesis by (simp add: reaches_avoiding.avoid_here)
  qed
next
  case (avoid_step m c)
  from avoid_step.hyps(2) have "c \<in> graph_nodes g root" by (rule import_edge_graph_nodes)
  with avoid_step.IH consider
    (a) "reaches_avoiding h g illegal (insert (node_name h n) S) c"
    | (b) "\<exists>c. import_edge g n c \<and> reaches_avoiding h g illegal (insert (node_name h n) S) c"
    by blast
  then show ?case
  proof cases
    case a
    show ?thesis
    proof (cases "node_name h m = node_name h n")
      case True
      with inj n avoid_step.prems have "m = n" by (auto dest: inj_onD)
      with a avoid_step.hyps(2) show ?thesis by blast
    next
      case False
      with avoid_step.hyps(1,2) a show ?thesis
        by (simp add: reaches_avoiding.avoid_step)
    qed
  next
    case b
    then show ?thesis by blast
  qed
qed

lemma find_complete:
  assumes inj: "inj_on (node_name h) (graph_nodes g root)"
  shows "reaches_avoiding h g illegal S n \<Longrightarrow> n \<in> graph_nodes g root \<Longrightarrow>
     fst (find_illegal_rollup_imports h g n d illegal S) \<noteq> None"
proof (induction "card (node_name h ` graph_nodes g root - S)" arbitrary: S n d rule: less_induct)
  case less
  let ?S = "insert (node_name h n) S"
  from less.prems(1) have nS: "node_name h n \<notin> S" by (rule reaches_avoiding_not_seen)
  show ?case
  proof
    assume none: "fst (find_illegal_rollup_imports h g n d illegal S) = None"
    with nS have nill: "node_name h n \<notin> illegal"
      and st: "\<And>c. static_edge g n c \<Longrightarrow>
          fst (find_illegal_rollup_imports h g c False illegal ?S) = None"
      and dy: "\<And>c. dynamic_edge g n c \<Longrightarrow>
          fst (find_illegal_rollup_imports h g c True illegal ?S) = None"
      using find_None_iff[of h g n d illegal S] by blast+
    have "\<not> reaches_avoiding h g illegal ?S n"
      using reaches_avoiding_not_seen by fastforce
    with last_visit[OF inj less.prems(2) nill less.prems(1) less.prems(2)]
    obtain c where c: "import_edge g n c" "reaches_avoiding h g illegal ?S c" by blast
    from c(1) have cV: "c \<in> graph_nodes g root" by (rule import_edge_graph_nodes)
    have "node_name h ` graph_nodes g root - ?S \<subset> node_name h ` graph_nodes g root - S"
      using nS less.prems(2) by auto
    then have "card (node_name h ` graph_nodes g root - ?S)
        < card (node_name h ` graph_nodes g root - S)"
      by (intro psubset_card_mono) (simp_all add: finite_graph_nodes)
    from less.hyps[OF this c(2) cV]
    have "\<And>d'. fst (find_illegal_rollup_imports h g c d' illegal ?S) \<noteq> None" .
    with c(1) st dy show False unfolding import_edge_def by blast
  qed
qed

lemma find_Some_head:
  "fst (find_illegal_rollup_imports h g n d illegal seen) = Some ch \<Longrightarrow>
     ch \<noteq> [] \<and> hd ch = \<lparr>name = node_name h n, dynamic = d\<rparr>"
  by (drule find_Some_cases) auto

subsection \<open>Formatting and the throwing entry point\<close>

definition repeat :: "string \<Rightarrow> nat \<Rightarrow> string" where
  "repeat str n = concat (replicate n str)"

definition js_join :: "string \<Rightarrow> string list \<Rightarrow> string" where
  "js_join sep xs = (case xs of [] \<Rightarrow> [] | x # rest \<Rightarrow> x @ concat (map (\<lambda>y. sep @ y) rest))"

definition format_illegal_import_chain :: "host \<Rightarrow> ImportNode list \<Rightarrow> string \<Rightarrow> string" where
  "format_illegal_import_chain h stack out_dir =
     (let app = path_join h out_dir ''runtime/env'';
          stack' = map (\<lambda>file.
                     if prefix app (name file)
                     then file\<lparr>name := ''$env'' @ drop (length app) (name file)\<rparr>
                     else file\<lparr>name := path_relative h (process_cwd h) (name file)\<rparr>) stack;
          pyramid = js_join [CHR 0x0A]
                     (map (\<lambda>(i, file).
                        repeat '' '' (i * 2) @ ''- '' @ name file @ '' '' @
                        (if dynamic file then ''(imported by parent dynamically)'' else []))
                      (List.enumerate 0 stack'))
      in ''Cannot import '' @ (if stack' = [] then ''undefined'' else name (last stack')) @
         '' into client-side code:'' @ [CHR 0x0A] @ pyramid)"

definition prevent_illegal_rollup_imports ::
    "host \<Rightarrow> node_table \<Rightarrow> ModuleInfo \<Rightarrow> string set \<Rightarrow> string \<Rightarrow> js_error + unit" where
  "prevent_illegal_rollup_imports h g node illegal_imports out_dir =
     (case fst (find_illegal_rollup_imports h g node False illegal_imports {}) of
        Some chain \<Rightarrow> Inl (Error (format_illegal_import_chain h chain out_dir))
      | None \<Rightarrow> Inr ())"

lemma find_None_iff_unreachable:
  assumes "inj_on (node_name h) (graph_nodes g root)"
  shows "fst (find_illegal_rollup_imports h g root d illegal {}) = None \<longleftrightarrow>
     \<not> reaches_illegal h g illegal root"
proof
  assume "fst (find_illegal_rollup_imports h g root d illegal {}) = None"
  then show "\<not> reaches_illegal h g illegal root"
    using find_complete[OF assms, of illegal "{}" root d]
    by (auto simp: reaches_avoiding_empty graph_nodes_def)
next
  assume nr: "\<not> reaches_illegal h g illegal root"
  show "fst (find_illegal_rollup_imports h g root d illegal {}) = None"
  proof (rule ccontr)
    assume "fst (find_illegal_rollup_imports h g root d illegal {}) \<noteq> None"
    then obtain ch where "fst (find_illegal_rollup_imports h g root d illegal {}) = Some ch"
      by auto
    then have "reaches_illegal h g illegal root"
      by (blast dest: find_sound import_chain_reaches)
    with nr show False by simp
  qed
qed

lemma find_unreachable_None:
  "\<not> reaches_illegal h g illegal root \<Longrightarrow>
     fst (find_illegal_rollup_imports h g root d illegal seen) = None"
proof (rule ccontr)
  assume nr: "\<not> reaches_illegal h g illegal root"
  assume "fst (find_illegal_rollup_imports h g root d illegal seen) \<noteq> None"
  then obtain ch where "fst (find_illegal_rollup_imports h g root d illegal seen) = Some ch"
    by auto
  then have "reaches_illegal h g illegal root"
    by (blast dest: find_sound import_chain_reaches)
  with nr show False by simp
qed

text \<open>
  Claim C1. \<^verbatim>\<open>prevent_illegal_rollup_imports\<close> throws exactly when a node with a forbidden
  name can be reached from the root over static or dynamic import edges, cycles or not.
  When no path reaches a forbidden name the call returns normally, on every table. The
  converse needs the nodes to be identified by their canonical names, as a module graph
  does: two different nodes of the graph never share a normalised id. The nodes of the
  graph are the modules that \<^verbatim>\<open>node_getter\<close> knows; an id that is only named in an
  import list, with no module information behind it, is no node and is skipped
  (\<open>unresolved_import_is_skipped\<close> below).
\<close>

theorem prevent_illegal_rollup_imports_throws_iff_reachable:
  "(\<not> reaches_illegal h g illegal root \<longrightarrow>
      prevent_illegal_rollup_imports h g root illegal out_dir = Inr ()) \<and>
   (inj_on (node_name h) (graph_nodes g root) \<longrightarrow>
      ((\<exists>msg. prevent_illegal_rollup_imports h g root illegal out_dir = Inl (Error msg)) \<longleftrightarrow>
       reaches_illegal h g illegal root))"
proof (intro conjI impI)
  assume "\<not> reaches_illegal h g illegal root"
  then show "prevent_illegal_rollup_imports h g root illegal out_dir = Inr ()"
    by (simp add: prevent_illegal_rollup_imports_def find_unreachable_None)
next
  assume inj: "inj_on (node_name h) (graph_nodes g root)"
  show "(\<exists>msg. prevent_illegal_rollup_imports h g root illegal out_dir = Inl (Error msg)) \<longleftrightarrow>
       reaches_illegal h g illegal root"
    using find_None_iff_unreachable[OF inj, of False illegal]
    by (auto simp: prevent_illegal_rollup_imports_def split: option.splits)
qed

subsection \<open>A concrete host and graph for the examples\<close>

definition sample_basename :: "string \<Rightarrow> string" where
  "sample_basename p = rev (takeWhile (\<lambda>c. c \<noteq> CHR ''/'') (rev p))"

definition sample_dirname :: "string \<Rightarrow> string" where
  "sample_dirname p =
     (if CHR ''/'' \<notin> set p then ''.''
      else (let d = rev (tl (dropWhile (\<lambda>c. c \<noteq> CHR ''/'') (rev p)))
            in if d = [] then ''/'' else d))"

definition sample_extname :: "string \<Rightarrow> string" where
  "sample_extname p =
     (let b = sample_basename p
      in if CHR ''.'' \<notin> set b then [] else CHR ''.'' # rev (takeWhile (\<lambda>c. c \<noteq> CHR ''.'') (rev b)))"

definition sample_host :: host where
  "sample_host =
     \<lparr>normalizePath = (\<lambda>s. s),
      path_join = (\<lambda>a b. a @ ''/'' @ b),
      path_relative = (\<lambda>from to. if prefix (from @ ''/'') to then drop (Suc (length from)) to else to),
      path_extname = sample_extname,
      path_dirname = sample_dirname,
      path_basename = sample_basename,
      process_cwd = ''/app''\<rparr>"

definition cyclic_root :: ModuleInfo where
  "cyclic_root = \<lparr>module_id = ''/app/a.js'', importedIds = [''/app/b.js''],
     dynamicallyImportedIds = []\<rparr>"

definition cyclic_graph :: node_table where
  "cyclic_graph =
     [(''/app/a.js'', cyclic_root),
      (''/app/b.js'', \<lparr>module_id = ''/app/b.js'', importedIds = [''/app/a.js''],
         dynamicallyImportedIds = [''/app/c.js'']\<rparr>),
      (''/app/c.js'', \<lparr>module_id = ''/app/c.js'', importedIds = [],
         dynamicallyImportedIds = []\<rparr>)]"

lemma node_getter_map_of: "node_getter g = map_of g"
  by (rule ext) (simp add: node_getter_def)

lemma graph_nodes_distinct:
  "distinct (map fst g) \<Longrightarrow> graph_nodes g root = insert root (snd ` set g)"
  by (simp add: graph_nodes_def node_getter_map_of ran_distinct)

lemma cyclic_graph_inj: "inj_on (node_name sample_host) (graph_nodes cyclic_graph cyclic_root)"
  by (simp add: graph_nodes_distinct cyclic_graph_def cyclic_root_def node_name_def sample_host_def)

lemma cyclic_find_c:
  "fst (find_illegal_rollup_imports sample_host cyclic_graph cyclic_root False {''/app/c.js''} {}) =
     Some [\<lparr>name = ''/app/a.js'', dynamic = False\<rparr>, \<lparr>name = ''/app/b.js'', dynamic = False\<rparr>,
           \<lparr>name = ''/app/c.js'', dynamic = True\<rparr>]"
  by (simp add: find_illegal_rollup_imports.simps Let_def node_getter_def cyclic_graph_def
      cyclic_root_def sample_host_def)

lemma cyclic_find_d:
  "fst (find_illegal_rollup_imports sample_host cyclic_graph cyclic_root False {''/app/d.js''} {}) = None"
  by (simp add: find_illegal_rollup_imports.simps Let_def node_getter_def cyclic_graph_def
      cyclic_root_def sample_host_def)

theorem prevent_illegal_rollup_imports_throws_iff_reachable_witness:
  "inj_on (node_name sample_host) (graph_nodes cyclic_graph cyclic_root) \<and>
   (\<exists>msg. prevent_illegal_rollup_imports sample_host cyclic_graph cyclic_root {''/app/c.js''} ''/app/.svelte-kit''
            = Inl (Error msg)) \<and>
   reaches_illegal sample_host cyclic_graph {''/app/c.js''} cyclic_root \<and>
   prevent_illegal_rollup_imports sample_host cyclic_graph cyclic_root {''/app/d.js''} ''/app/.svelte-kit''
     = Inr () \<and>
   \<not> reaches_illegal sample_host cyclic_graph {''/app/d.js''} cyclic_root"
proof -
  have c: "\<exists>msg. prevent_illegal_rollup_imports sample_host cyclic_graph cyclic_root {''/app/c.js''}
      ''/app/.svelte-kit'' = Inl (Error msg)"
    by (simp add: prevent_illegal_rollup_imports_def cyclic_find_c)
  have d: "prevent_illegal_rollup_imports sample_host cyclic_graph cyclic_root {''/app/d.js''}
      ''/app/.svelte-kit'' = Inr ()"
    by (simp add: prevent_illegal_rollup_imports_def cyclic_find_d)
  from c d cyclic_graph_inj
    prevent_illegal_rollup_imports_throws_iff_reachable
      [of sample_host cyclic_graph "{''/app/c.js''}" cyclic_root "''/app/.svelte-kit''"]
    prevent_illegal_rollup_imports_throws_iff_reachable
      [of sample_host cyclic_graph "{''/app/d.js''}" cyclic_root "''/app/.svelte-kit''"]
  show ?thesis by auto
qed

text \<open>
  The guard \<^verbatim>\<open>child && ...\<close> at work: the root imports a forbidden id for which
  \<^verbatim>\<open>node_getter\<close> returns \<^verbatim>\<open>null\<close>, and the check returns normally.
\<close>

lemma unresolved_import_is_skipped:
  "prevent_illegal_rollup_imports sample_host []
     \<lparr>module_id = ''/app/a.js'', importedIds = [''/app/secret.js''],
      dynamicallyImportedIds = []\<rparr> {''/app/secret.js''} ''/app/.svelte-kit'' = Inr ()"
  by (simp add: prevent_illegal_rollup_imports_def find_illegal_rollup_imports.simps Let_def
      node_getter_def sample_host_def)

subsection \<open>The tags of a returned chain\<close>

text \<open>
  Claim C3. A chain that the build-graph checker returns for a root starts with the
  root's entry, which is never tagged dynamic, and every later entry is tagged by the
  kind of the import it was entered through: \<open>False\<close> for one of the parent's
  \<^verbatim>\<open>importedIds\<close>, \<open>True\<close> for one of its \<^verbatim>\<open>dynamicallyImportedIds\<close> (that none
  of the parent's static imports resolves to). The witness is the claim's example: A
  imports B, B imports C dynamically, C is forbidden.
\<close>

theorem chain_tags_edge_kind:
  assumes "fst (find_illegal_rollup_imports h g root False illegal {}) = Some chain"
  shows "import_chain h g illegal root False chain \<and> chain \<noteq> [] \<and> \<not> dynamic (hd chain)"
  using find_sound[OF assms] find_Some_head[OF assms] by simp

definition abc_root :: ModuleInfo where
  "abc_root = \<lparr>module_id = ''A'', importedIds = [''B''], dynamicallyImportedIds = []\<rparr>"

definition abc_dynamic :: node_table where
  "abc_dynamic =
     [(''A'', abc_root),
      (''B'', \<lparr>module_id = ''B'', importedIds = [], dynamicallyImportedIds = [''C'']\<rparr>),
      (''C'', \<lparr>module_id = ''C'', importedIds = [], dynamicallyImportedIds = []\<rparr>)]"

definition abc_static :: node_table where
  "abc_static =
     [(''A'', abc_root),
      (''B'', \<lparr>module_id = ''B'', importedIds = [''A'', ''C''], dynamicallyImportedIds = [''D'']\<rparr>),
      (''C'', \<lparr>module_id = ''C'', importedIds = [], dynamicallyImportedIds = []\<rparr>),
      (''D'', \<lparr>module_id = ''D'', importedIds = [], dynamicallyImportedIds = []\<rparr>)]"

lemma abc_dynamic_find:
  "fst (find_illegal_rollup_imports sample_host abc_dynamic abc_root False {''C''} {}) =
     Some [\<lparr>name = ''A'', dynamic = False\<rparr>, \<lparr>name = ''B'', dynamic = False\<rparr>,
           \<lparr>name = ''C'', dynamic = True\<rparr>]"
  by (simp add: find_illegal_rollup_imports.simps Let_def node_getter_def abc_dynamic_def
      abc_root_def sample_host_def)

theorem chain_tags_edge_kind_witness:
  "fst (find_illegal_rollup_imports sample_host abc_dynamic abc_root False {''C''} {}) =
     Some [\<lparr>name = ''A'', dynamic = False\<rparr>, \<lparr>name = ''B'', dynamic = False\<rparr>,
           \<lparr>name = ''C'', dynamic = True\<rparr>] \<and>
   import_chain sample_host abc_dynamic {''C''} abc_root False
     [\<lparr>name = ''A'', dynamic = False\<rparr>, \<lparr>name = ''B'', dynamic = False\<rparr>,
      \<lparr>name = ''C'', dynamic = True\<rparr>]"
  using chain_tags_edge_kind[OF abc_dynamic_find] abc_dynamic_find by simp

subsection \<open>A single static path\<close>

text \<open>
  Paths are lists of nodes, each importing the next. A violating path starts at the
  root and ends at a node with a forbidden name. A path of the graph visits no node
  twice: its names are distinct (a walk that runs around a circular import is not
  another path). \<open>tag_path\<close> writes the chain of a path: the entry of a node is
  tagged dynamic when its predecessor does not import it statically.
\<close>

fun path_along :: "(ModuleInfo \<Rightarrow> ModuleInfo \<Rightarrow> bool) \<Rightarrow> ModuleInfo list \<Rightarrow> bool" where
  "path_along E [] = False"
| "path_along E [n] = True"
| "path_along E (n # m # ms) = (E n m \<and> path_along E (m # ms))"

definition violating_path :: "host \<Rightarrow> node_table \<Rightarrow> string set \<Rightarrow> ModuleInfo \<Rightarrow> ModuleInfo list \<Rightarrow> bool" where
  "violating_path h g illegal root p =
     (path_along (import_edge g) p \<and> hd p = root \<and> node_name h (last p) \<in> illegal)"

fun tag_path :: "host \<Rightarrow> node_table \<Rightarrow> bool \<Rightarrow> ModuleInfo list \<Rightarrow> ImportNode list" where
  "tag_path h g d [] = []"
| "tag_path h g d [n] = [\<lparr>name = node_name h n, dynamic = d\<rparr>]"
| "tag_path h g d (n # m # ms) =
     \<lparr>name = node_name h n, dynamic = d\<rparr> # tag_path h g (\<not> static_edge g n m) (m # ms)"

lemma import_chain_path:
  "import_chain h g illegal n d ch \<Longrightarrow>
     \<exists>p. violating_path h g illegal n p \<and> ch = tag_path h g d p"
proof (induction rule: import_chain.induct)
  case (chain_end n d)
  have "violating_path h g illegal n [n]" using chain_end by (simp add: violating_path_def)
  moreover have "[\<lparr>name = node_name h n, dynamic = d\<rparr>] = tag_path h g d [n]" by simp
  ultimately show ?case by blast
next
  case (chain_static n c ch d)
  then obtain p where p: "violating_path h g illegal c p" "ch = tag_path h g False p" by blast
  then obtain ms where ms: "p = c # ms" by (cases p) (auto simp: violating_path_def)
  have "violating_path h g illegal n (n # p)"
    using p(1) chain_static.hyps(2) ms by (simp add: violating_path_def import_edge_def)
  moreover have "\<lparr>name = node_name h n, dynamic = d\<rparr> # ch = tag_path h g d (n # p)"
    using p(2) ms chain_static.hyps(2) by simp
  ultimately show ?case by blast
next
  case (chain_dynamic n c ch d)
  then obtain p where p: "violating_path h g illegal c p" "ch = tag_path h g True p" by blast
  then obtain ms where ms: "p = c # ms" by (cases p) (auto simp: violating_path_def)
  have "violating_path h g illegal n (n # p)"
    using p(1) chain_dynamic.hyps(2) ms by (simp add: violating_path_def import_edge_def)
  moreover have "\<lparr>name = node_name h n, dynamic = d\<rparr> # ch = tag_path h g d (n # p)"
    using p(2) ms chain_dynamic.hyps(3) by simp
  ultimately show ?case by blast
qed

lemma path_along_mono:
  "path_along E p \<Longrightarrow> (\<And>a b. E a b \<Longrightarrow> E' a b) \<Longrightarrow> path_along E' p"
  by (induction E p rule: path_along.induct) auto

lemma violating_path_reaches:
  "path_along (import_edge g) p \<Longrightarrow> node_name h (last p) \<in> illegal \<Longrightarrow>
     reaches_illegal h g illegal (hd p)"
proof (induction "import_edge g" p rule: path_along.induct)
  case 1
  then show ?case by simp
next
  case (2 n)
  then show ?case by (simp add: reaches_illegal_here)
next
  case (3 n m ms)
  then show ?case by (auto intro: reaches_illegal_step)
qed

lemma tag_static_path:
  "path_along (static_edge g) p \<Longrightarrow>
     tag_path h g False p = map (\<lambda>n. \<lparr>name = node_name h n, dynamic = False\<rparr>) p"
  by (induction "static_edge g" p rule: path_along.induct) auto

lemma find_Some_distinct_path:
  "fst (find_illegal_rollup_imports h g n d illegal seen) = Some ch \<Longrightarrow>
     \<exists>p. violating_path h g illegal n p \<and> distinct (map (node_name h) p) \<and>
         set (map (node_name h) p) \<inter> seen = {} \<and> ch = tag_path h g d p"
proof (induction ch arbitrary: n d seen)
  case Nil
  from find_Some_cases[OF Nil] show ?case by simp
next
  case (Cons e ch)
  let ?S = "insert (node_name h n) seen"
  from find_Some_cases[OF Cons.prems] have fresh: "node_name h n \<notin> seen" by blast
  from find_Some_cases[OF Cons.prems] consider
    (a) "node_name h n \<in> illegal" "e # ch = [\<lparr>name = node_name h n, dynamic = d\<rparr>]"
    | (b) c where "e = \<lparr>name = node_name h n, dynamic = d\<rparr>"
        "static_edge g n c" "fst (find_illegal_rollup_imports h g c False illegal ?S) = Some ch"
    | (c) c where "e = \<lparr>name = node_name h n, dynamic = d\<rparr>"
        "dynamic_edge g n c" "\<not> static_edge g n c"
        "fst (find_illegal_rollup_imports h g c True illegal ?S) = Some ch"
    by blast
  then show ?case
  proof cases
    case a
    have "violating_path h g illegal n [n]" using a(1) by (simp add: violating_path_def)
    moreover have "e # ch = tag_path h g d [n]" using a(2) by simp
    ultimately show ?thesis using fresh by (intro exI[of _ "[n]"]) simp
  next
    case b
    from Cons.IH[OF b(3)] obtain p where p: "violating_path h g illegal c p"
      "distinct (map (node_name h) p)" "set (map (node_name h) p) \<inter> ?S = {}"
      "ch = tag_path h g False p" by blast
    from p(1) obtain ms where ms: "p = c # ms" by (cases p) (auto simp: violating_path_def)
    have "violating_path h g illegal n (n # p)"
      using p(1) b(2) ms by (simp add: violating_path_def import_edge_def)
    moreover have "distinct (map (node_name h) (n # p))" using p(2,3) by auto
    moreover have "set (map (node_name h) (n # p)) \<inter> seen = {}" using p(3) fresh by auto
    moreover have "e # ch = tag_path h g d (n # p)" using p(4) ms b(1,2) by simp
    ultimately show ?thesis by blast
  next
    case c
    from Cons.IH[OF c(4)] obtain p where p: "violating_path h g illegal c p"
      "distinct (map (node_name h) p)" "set (map (node_name h) p) \<inter> ?S = {}"
      "ch = tag_path h g True p" by blast
    from p(1) obtain ms where ms: "p = c # ms" by (cases p) (auto simp: violating_path_def)
    have "violating_path h g illegal n (n # p)"
      using p(1) c(2) ms by (simp add: violating_path_def import_edge_def)
    moreover have "distinct (map (node_name h) (n # p))" using p(2,3) by auto
    moreover have "set (map (node_name h) (n # p)) \<inter> seen = {}" using p(3) fresh by auto
    moreover have "e # ch = tag_path h g d (n # p)" using p(4) ms c(1,3) by simp
    ultimately show ?thesis by blast
  qed
qed

text \<open>
  Claim C4. When the graph has exactly one path from the root to a forbidden name, and
  that path uses static imports only, the checker returns that path, in order, with
  \<^verbatim>\<open>dynamic: false\<close> on every element. Circular imports do not count as further
  paths: the path is the only one among the violating paths that visit no node twice.
  The witness is the claim's example A, B, C, with a circular import between B and A
  and a harmless dynamic import beside the path.
\<close>

theorem unique_static_path_chain:
  assumes inj: "inj_on (node_name h) (graph_nodes g root)"
    and static: "path_along (static_edge g) p"
    and viol: "violating_path h g illegal root p"
    and uniq: "\<forall>q. violating_path h g illegal root q \<and> distinct (map (node_name h) q)
                 \<longrightarrow> q = p"
  shows "fst (find_illegal_rollup_imports h g root False illegal {}) =
     Some (map (\<lambda>n. \<lparr>name = node_name h n, dynamic = False\<rparr>) p)"
proof -
  from viol have "reaches_illegal h g illegal root"
    using violating_path_reaches[of g p h illegal] by (auto simp: violating_path_def)
  with find_None_iff_unreachable[OF inj, of False illegal]
  obtain ch where ch: "fst (find_illegal_rollup_imports h g root False illegal {}) = Some ch"
    by auto
  from find_Some_distinct_path[OF ch]
  obtain q where q: "violating_path h g illegal root q" "distinct (map (node_name h) q)"
    "ch = tag_path h g False q" by blast
  with uniq have "q = p" by blast
  with q(3) ch static show ?thesis by (simp add: tag_static_path)
qed

definition node_b :: ModuleInfo where
  "node_b = \<lparr>module_id = ''B'', importedIds = [''A'', ''C''], dynamicallyImportedIds = [''D'']\<rparr>"

definition node_c :: ModuleInfo where
  "node_c = \<lparr>module_id = ''C'', importedIds = [], dynamicallyImportedIds = []\<rparr>"

definition node_d :: ModuleInfo where
  "node_d = \<lparr>module_id = ''D'', importedIds = [], dynamicallyImportedIds = []\<rparr>"

lemma abc_static_nodes:
  "abc_static = [(''A'', abc_root), (''B'', node_b), (''C'', node_c), (''D'', node_d)]"
  by (simp add: abc_static_def node_b_def node_c_def node_d_def)

lemma abc_static_edges:
  "import_edge abc_static abc_root m \<longleftrightarrow> m = node_b"
  "import_edge abc_static node_b m \<longleftrightarrow> m = abc_root \<or> m = node_c \<or> m = node_d"
  "\<not> import_edge abc_static node_c m"
  "\<not> import_edge abc_static node_d m"
  by (auto simp: import_edge_def static_edge_def dynamic_edge_def node_getter_def
      abc_static_nodes abc_root_def node_b_def node_c_def node_d_def)

lemma abc_static_names:
  "node_name sample_host abc_root = ''A''" "node_name sample_host node_b = ''B''"
  "node_name sample_host node_c = ''C''" "node_name sample_host node_d = ''D''"
  by (simp_all add: node_name_def sample_host_def abc_root_def node_b_def node_c_def node_d_def)

lemma abc_static_unique:
  assumes "violating_path sample_host abc_static {''C''} abc_root q"
    and dist: "distinct (map (node_name sample_host) q)"
  shows "q = [abc_root, node_b, node_c]"
proof -
  from assms have p: "path_along (import_edge abc_static) q" and h: "hd q = abc_root"
    and l: "node_name sample_host (last q) = ''C''"
    by (simp_all add: violating_path_def)
  from p h obtain q1 where q: "q = abc_root # q1" by (cases q) auto
  with l obtain y q2 where q1: "q1 = y # q2" by (cases q1) (auto simp: abc_static_names)
  with p q have y: "y = node_b" and p2: "path_along (import_edge abc_static) (node_b # q2)"
    by (auto simp: abc_static_edges)
  from l q q1 y obtain z q3 where q2: "q2 = z # q3" by (cases q2) (auto simp: abc_static_names)
  with p2 have "z = abc_root \<or> z = node_c \<or> z = node_d"
    and p3: "path_along (import_edge abc_static) (z # q3)"
    by (auto simp: abc_static_edges)
  moreover from dist q q1 q2 have "z \<noteq> abc_root" by auto
  ultimately have z: "z = node_c \<or> z = node_d" by simp
  from p3 z have "q3 = []" by (cases q3) (auto simp: abc_static_edges)
  with l q q1 q2 y z show ?thesis by (auto simp: abc_static_names)
qed

text \<open>
  In this graph B imports A back. The walk A, B, A, B, C also ends at the forbidden
  name, but it visits A and B twice; A, B, C is the only path.
\<close>

lemma abc_static_walk:
  "violating_path sample_host abc_static {''C''} abc_root
     [abc_root, node_b, abc_root, node_b, node_c]"
  by (simp add: violating_path_def abc_static_edges abc_static_names)

theorem unique_static_path_chain_witness:
  "inj_on (node_name sample_host) (graph_nodes abc_static abc_root) \<and>
   path_along (static_edge abc_static) [abc_root, node_b, node_c] \<and>
   violating_path sample_host abc_static {''C''} abc_root [abc_root, node_b, node_c] \<and>
   import_edge abc_static node_b abc_root \<and>
   fst (find_illegal_rollup_imports sample_host abc_static abc_root False {''C''} {}) =
     Some [\<lparr>name = ''A'', dynamic = False\<rparr>, \<lparr>name = ''B'', dynamic = False\<rparr>,
           \<lparr>name = ''C'', dynamic = False\<rparr>]"
proof -
  have inj: "inj_on (node_name sample_host) (graph_nodes abc_static abc_root)"
    by (simp add: graph_nodes_distinct abc_static_nodes node_name_def sample_host_def
        abc_root_def node_b_def node_c_def node_d_def)
  have st: "path_along (static_edge abc_static) [abc_root, node_b, node_c]"
    by (simp add: static_edge_def node_getter_def abc_static_nodes abc_root_def node_b_def)
  have vi: "violating_path sample_host abc_static {''C''} abc_root [abc_root, node_b, node_c]"
    by (simp add: violating_path_def abc_static_edges abc_static_names)
  have cy: "import_edge abc_static node_b abc_root"
    by (simp add: abc_static_edges)
  have un: "\<forall>q. violating_path sample_host abc_static {''C''} abc_root q \<and>
      distinct (map (node_name sample_host) q) \<longrightarrow> q = [abc_root, node_b, node_c]"
    using abc_static_unique by blast
  from unique_static_path_chain[OF inj st vi un] inj st vi cy show ?thesis
    by (simp add: abc_static_names)
qed

subsection \<open>Static imports are searched first\<close>

text \<open>
  Claim C5. At every node the static imports are searched before the dynamic ones: when
  a forbidden name can be reached through one of the node's static imports (without
  coming back through the names already on the stack), the chain that is returned
  continues through a static import of the node, whatever the dynamic imports lead to.
  The second entry of the chain is that static child's, tagged \<^verbatim>\<open>dynamic: false\<close>.
\<close>

theorem static_imports_win:
  assumes inj: "inj_on (node_name h) (graph_nodes g root)"
    and n: "n \<in> graph_nodes g root"
    and fresh: "node_name h n \<notin> seen" and legal: "node_name h n \<notin> illegal"
    and edge: "static_edge g n c"
    and reach: "reaches_avoiding h g illegal (insert (node_name h n) seen) c"
  shows "\<exists>c' rest. fst (find_illegal_rollup_imports h g n d illegal seen) =
            Some (\<lparr>name = node_name h n, dynamic = d\<rparr> # rest) \<and>
          static_edge g n c' \<and>
          fst (find_illegal_rollup_imports h g c' False illegal (insert (node_name h n) seen)) =
            Some rest \<and>
          rest \<noteq> [] \<and> hd rest = \<lparr>name = node_name h c', dynamic = False\<rparr>"
proof -
  let ?S = "insert (node_name h n) seen"
  from edge have "c \<in> graph_nodes g root"
    by (auto intro: import_edge_graph_nodes simp: import_edge_def)
  from find_complete[OF inj reach this]
  have cfound: "fst (find_illegal_rollup_imports h g c False illegal ?S) \<noteq> None" .
  have "fst (find_illegal_rollup_imports h g n d illegal seen) \<noteq> None"
  proof
    assume "fst (find_illegal_rollup_imports h g n d illegal seen) = None"
    from iffD1[OF find_None_iff this] fresh
    have "\<forall>c. static_edge g n c \<longrightarrow>
        fst (find_illegal_rollup_imports h g c False illegal ?S) = None"
      by simp
    with edge cfound show False by simp
  qed
  then obtain ch where ch: "fst (find_illegal_rollup_imports h g n d illegal seen) = Some ch"
    by auto
  have "\<not> (\<forall>c'. static_edge g n c' \<longrightarrow>
        fst (find_illegal_rollup_imports h g c' False illegal ?S) = None)"
    using edge cfound by auto
  with find_Some_cases[OF ch] legal
  obtain c' rest where r: "ch = \<lparr>name = node_name h n, dynamic = d\<rparr> # rest"
      "static_edge g n c'"
      "fst (find_illegal_rollup_imports h g c' False illegal ?S) = Some rest"
    by blast
  from find_Some_head[OF r(3)] ch r show ?thesis by blast
qed

definition fork_root :: ModuleInfo where
  "fork_root = \<lparr>module_id = ''A'', importedIds = [''B''], dynamicallyImportedIds = [''D'']\<rparr>"

definition fork_b :: ModuleInfo where
  "fork_b = \<lparr>module_id = ''B'', importedIds = [''X''], dynamicallyImportedIds = []\<rparr>"

definition fork_d :: ModuleInfo where
  "fork_d = \<lparr>module_id = ''D'', importedIds = [''Y''], dynamicallyImportedIds = []\<rparr>"

definition fork_x :: ModuleInfo where
  "fork_x = \<lparr>module_id = ''X'', importedIds = [], dynamicallyImportedIds = []\<rparr>"

definition fork_y :: ModuleInfo where
  "fork_y = \<lparr>module_id = ''Y'', importedIds = [], dynamicallyImportedIds = []\<rparr>"

definition fork_graph :: node_table where
  "fork_graph = [(''A'', fork_root), (''D'', fork_d), (''B'', fork_b), (''Y'', fork_y),
     (''X'', fork_x)]"

theorem static_imports_win_witness:
  "inj_on (node_name sample_host) (graph_nodes fork_graph fork_root) \<and>
   static_edge fork_graph fork_root fork_b \<and>
   reaches_avoiding sample_host fork_graph {''X'', ''Y''} {''A''} fork_b \<and>
   dynamic_edge fork_graph fork_root fork_d \<and>
   reaches_avoiding sample_host fork_graph {''X'', ''Y''} {''A''} fork_d \<and>
   fst (find_illegal_rollup_imports sample_host fork_graph fork_root False {''X'', ''Y''} {}) =
     Some [\<lparr>name = ''A'', dynamic = False\<rparr>, \<lparr>name = ''B'', dynamic = False\<rparr>,
           \<lparr>name = ''X'', dynamic = False\<rparr>]"
proof -
  have names: "node_name sample_host fork_root = ''A''" "node_name sample_host fork_b = ''B''"
    "node_name sample_host fork_d = ''D''" "node_name sample_host fork_x = ''X''"
    "node_name sample_host fork_y = ''Y''"
    by (simp_all add: node_name_def sample_host_def fork_root_def fork_b_def fork_d_def
        fork_x_def fork_y_def)
  have inj: "inj_on (node_name sample_host) (graph_nodes fork_graph fork_root)"
    by (simp add: graph_nodes_distinct fork_graph_def node_name_def sample_host_def
        fork_root_def fork_b_def fork_d_def fork_x_def fork_y_def)
  have e1: "static_edge fork_graph fork_root fork_b"
    by (simp add: static_edge_def node_getter_def fork_graph_def fork_root_def)
  have e2: "dynamic_edge fork_graph fork_root fork_d"
    by (simp add: dynamic_edge_def node_getter_def fork_graph_def fork_root_def)
  have e3: "import_edge fork_graph fork_b fork_x"
    by (simp add: import_edge_def static_edge_def node_getter_def fork_graph_def fork_b_def)
  have e4: "import_edge fork_graph fork_d fork_y"
    by (simp add: import_edge_def static_edge_def node_getter_def fork_graph_def fork_d_def)
  have r1: "reaches_avoiding sample_host fork_graph {''X'', ''Y''} {''A''} fork_b"
    by (rule avoid_step[OF _ e3]) (simp_all add: names avoid_here)
  have r2: "reaches_avoiding sample_host fork_graph {''X'', ''Y''} {''A''} fork_d"
    by (rule avoid_step[OF _ e4]) (simp_all add: names avoid_here)
  have ev: "fst (find_illegal_rollup_imports sample_host fork_graph fork_root False {''X'', ''Y''} {}) =
     Some [\<lparr>name = ''A'', dynamic = False\<rparr>, \<lparr>name = ''B'', dynamic = False\<rparr>,
           \<lparr>name = ''X'', dynamic = False\<rparr>]"
    by (simp add: find_illegal_rollup_imports.simps Let_def node_getter_def fork_graph_def
        fork_root_def fork_b_def fork_d_def fork_x_def fork_y_def sample_host_def)
  have "fork_root \<in> graph_nodes fork_graph fork_root" by (simp add: graph_nodes_def)
  from static_imports_win[OF inj this _ _ e1, of "{}" "{''X'', ''Y''}" False] r1
  have "\<exists>c' rest. fst (find_illegal_rollup_imports sample_host fork_graph fork_root False
      {''X'', ''Y''} {}) = Some (\<lparr>name = ''A'', dynamic = False\<rparr> # rest) \<and>
      hd rest = \<lparr>name = node_name sample_host c', dynamic = False\<rparr>"
    by (simp add: names) blast
  with inj e1 e2 r1 r2 ev show ?thesis by simp
qed

section \<open>The import-boundary checker over the development graph\<close>

text \<open>
  Vite's \<^verbatim>\<open>ModuleNode\<close> objects point at each other: \<^verbatim>\<open>importedModules\<close> is a set of
  node objects, and the graph may be cyclic. The model keeps the objects in a store and
  lets a node hold the addresses of the nodes it imports, in the set's iteration order.
  \<^verbatim>\<open>node.id\<close> and \<^verbatim>\<open>node.file\<close> are strings or \<^verbatim>\<open>null\<close>; \<^verbatim>\<open>node.url\<close> is the
  URL the module is served under.
\<close>

record ModuleNode =
  node_id :: "string option"
  node_url :: string
  node_file :: "string option"
  importedModules :: "nat list"

type_synonym module_store = "(nat \<times> ModuleNode) list"

definition deref :: "module_store \<Rightarrow> nat \<Rightarrow> ModuleNode option" where
  "deref st a = map_of st a"

definition get_module_types :: "string list \<Rightarrow> string set" where
  "get_module_types config_module_types =
     set ([''.ts'', ''.js'', ''.svelte'', ''.mts'', ''.mjs'', ''.cts'', ''.cjs'',
           ''.svelte.md'', ''.svx'', ''.md''] @ config_module_types)"

text \<open>
  \<^verbatim>\<open>!node.id\<close> holds for \<^verbatim>\<open>null\<close> and for the empty string, and \<^verbatim>\<open>name && ...\<close> asks
  for a non-empty name. A child that is no object is skipped (\<^verbatim>\<open>child && ...\<close>); in the
  model that is an address the store does not hold.
\<close>

function find_illegal_vite_imports ::
    "host \<Rightarrow> module_store \<Rightarrow> ModuleNode \<Rightarrow> string set \<Rightarrow> string set \<Rightarrow> string set
      \<Rightarrow> ImportNode list option \<times> string set"
  and vite_children ::
    "host \<Rightarrow> module_store \<Rightarrow> nat list \<Rightarrow> string set \<Rightarrow> string set \<Rightarrow> string set
      \<Rightarrow> ImportNode list option \<times> string set"
where
  "find_illegal_vite_imports h st node illegal_imports module_types seen =
     (case node_id node of
        None \<Rightarrow> (None, seen)
      | Some i \<Rightarrow>
          if i = [] then (None, seen)
          else
            (let nm = normalizePath h i in
             if nm \<in> seen \<or> path_extname h nm \<notin> module_types then (None, seen)
             else if nm \<noteq> [] \<and> nm \<in> illegal_imports
               then (Some [\<lparr>name = nm, dynamic = False\<rparr>], insert nm seen)
             else
               (case vite_children h st (importedModules node) illegal_imports module_types
                       (insert nm seen) of
                  (Some chain, seen2) \<Rightarrow> (Some (\<lparr>name = nm, dynamic = False\<rparr> # chain), seen2)
                | (None, seen2) \<Rightarrow> (None, seen2 - {nm}))))"
| "vite_children h st [] illegal_imports module_types seen = (None, seen)"
| "vite_children h st (a # as) illegal_imports module_types seen =
     (case deref st a of
        None \<Rightarrow> vite_children h st as illegal_imports module_types seen
      | Some child \<Rightarrow>
          (case find_illegal_vite_imports h st child illegal_imports module_types seen of
             (Some chain, seen') \<Rightarrow> (Some chain, seen')
           | (None, seen') \<Rightarrow> vite_children h st as illegal_imports module_types seen'))"
  by pat_completeness auto

definition vite_name :: "host \<Rightarrow> ModuleNode \<Rightarrow> string" where
  "vite_name h n = (case node_id n of None \<Rightarrow> [] | Some i \<Rightarrow> normalizePath h i)"

definition store_names :: "host \<Rightarrow> module_store \<Rightarrow> string set" where
  "store_names h st = (\<lambda>p. vite_name h (snd p)) ` set st"

lemma finite_store_names: "finite (store_names h st)"
  by (simp add: store_names_def)

lemma deref_name: "deref st a = Some child \<Longrightarrow> vite_name h child \<in> store_names h st"
  unfolding deref_def store_names_def by (force dest: map_of_SomeD)

lemma vite_restore_partial:
  "find_illegal_vite_imports_vite_children_dom (Inl (h, st, node, illegal, mt, seen)) \<Longrightarrow>
     fst (find_illegal_vite_imports h st node illegal mt seen) = None \<Longrightarrow>
     snd (find_illegal_vite_imports h st node illegal mt seen) = seen"
  "find_illegal_vite_imports_vite_children_dom (Inr (h, st, as, illegal, mt, seen)) \<Longrightarrow>
     fst (vite_children h st as illegal mt seen) = None \<Longrightarrow>
     snd (vite_children h st as illegal mt seen) = seen"
proof (induction rule: find_illegal_vite_imports_vite_children.pinduct)
  case (1 h st node illegal mt seen)
  note dom = 1(1) and IH = 1(2) and none = 1(3)
  show ?case
  proof (cases "node_id node")
    case None
    with dom show ?thesis by (simp add: find_illegal_vite_imports.psimps)
  next
    case (Some i)
    let ?nm = "normalizePath h i"
    show ?thesis
    proof (cases "i = [] \<or> ?nm \<in> seen \<or> path_extname h ?nm \<notin> mt")
      case True
      with dom Some show ?thesis
        by (auto simp: find_illegal_vite_imports.psimps Let_def)
    next
      case False
      with dom Some none have legal: "?nm = [] \<or> ?nm \<notin> illegal"
        by (auto simp: find_illegal_vite_imports.psimps Let_def)
      obtain r s where rs:
        "vite_children h st (importedModules node) illegal mt (insert ?nm seen) = (r, s)"
        by (cases "vite_children h st (importedModules node) illegal mt (insert ?nm seen)")
      with dom Some False legal none have r: "r = None"
        by (auto simp: find_illegal_vite_imports.psimps Let_def split: option.splits)
      with IH[OF Some _ refl] False legal rs have "s = insert ?nm seen" by simp
      with dom Some False legal rs r show ?thesis
        by (auto simp: find_illegal_vite_imports.psimps Let_def)
    qed
  qed
next
  case (2 h st illegal mt seen)
  then show ?case by (simp add: vite_children.psimps)
next
  case (3 h st a as illegal mt seen)
  then show ?case
    by (auto simp: vite_children.psimps split: prod.splits option.splits)
qed

termination find_illegal_vite_imports
proof (relation "measures
    [\<lambda>x. case x of
            Inl (h, st, node, illegal, mt, seen) \<Rightarrow>
              card (insert (vite_name h node) (store_names h st) - seen)
          | Inr (h, st, as, illegal, mt, seen) \<Rightarrow> card (store_names h st - seen),
     \<lambda>x. case x of
            Inl _ \<Rightarrow> 0
          | Inr (h, st, as, illegal, mt, seen) \<Rightarrow> Suc (length as)]",
    goal_cases)
  case 1
  then show ?case by simp
next
  case (2 h st node illegal mt seen i nm)
  then show ?case by (simp add: card_names_step finite_store_names vite_name_def)
next
  case (3 h st a as illegal mt seen)
  then show ?case by simp
next
  case (4 h st a as illegal mt seen child)
  then show ?case by (simp add: insert_absorb deref_name)
next
  case (5 h st a as illegal mt seen child x y)
  from 5(2,3)
  have "fst (find_illegal_vite_imports h st child illegal mt seen) = None"
    and "y = snd (find_illegal_vite_imports h st child illegal mt seen)"
    by (simp_all flip: 5(2))
  with 5(4) have "y = seen"
    by (simp add: vite_restore_partial(1))
  then show ?case by simp
qed

declare find_illegal_vite_imports.simps [simp del]

definition prevent_illegal_vite_imports ::
    "host \<Rightarrow> module_store \<Rightarrow> ModuleNode \<Rightarrow> string set \<Rightarrow> string list \<Rightarrow> string
      \<Rightarrow> js_error + unit" where
  "prevent_illegal_vite_imports h st node illegal_imports module_types out_dir =
     (case fst (find_illegal_vite_imports h st node illegal_imports
                  (get_module_types module_types) {}) of
        Some chain \<Rightarrow> Inl (Error (format_illegal_import_chain h chain out_dir))
      | None \<Rightarrow> Inr ())"

lemma vite_chain_static:
  "\<forall>chain. fst (find_illegal_vite_imports h st node illegal mt seen) = Some chain
      \<longrightarrow> (\<forall>e \<in> set chain. \<not> dynamic e)"
  "\<forall>chain. fst (vite_children h st as illegal mt seen) = Some chain
      \<longrightarrow> (\<forall>e \<in> set chain. \<not> dynamic e)"
proof (induction h st node illegal mt seen and h st as illegal mt seen
    rule: find_illegal_vite_imports_vite_children.induct)
  case (1 h st node illegal mt seen)
  show ?case
  proof (intro allI impI)
    fix chain
    assume a: "fst (find_illegal_vite_imports h st node illegal mt seen) = Some chain"
    show "\<forall>e \<in> set chain. \<not> dynamic e"
      using a 1
      by (auto simp: find_illegal_vite_imports.simps[of h st node] Let_def
          split: option.splits if_splits prod.splits)
  qed
next
  case (2 h st illegal mt seen)
  then show ?case by simp
next
  case (3 h st a as illegal mt seen)
  then show ?case
    by (auto split: option.splits prod.splits)
qed

text \<open>
  Claim C10. The checker for the development graph never tags an entry as a dynamic
  import: every chain it produces, for every node, forbidden set, set of module types
  and \<^verbatim>\<open>seen\<close> set, has \<^verbatim>\<open>dynamic: false\<close> on all its elements, and the error of
  \<^verbatim>\<open>prevent_illegal_vite_imports\<close> is formatted from such a chain.
\<close>

theorem vite_chain_never_dynamic:
  "(\<forall>chain. fst (find_illegal_vite_imports h st node illegal mt seen) = Some chain
      \<longrightarrow> (\<forall>e \<in> set chain. \<not> dynamic e)) \<and>
   (\<forall>err. prevent_illegal_vite_imports h st node illegal module_types out_dir = Inl err
      \<longrightarrow> (\<exists>chain. (\<forall>e \<in> set chain. \<not> dynamic e) \<and>
             err = Error (format_illegal_import_chain h chain out_dir)))"
proof (intro conjI allI impI)
  fix chain
  assume "fst (find_illegal_vite_imports h st node illegal mt seen) = Some chain"
  with vite_chain_static(1) show "\<forall>e \<in> set chain. \<not> dynamic e" by blast
next
  fix err
  assume a: "prevent_illegal_vite_imports h st node illegal module_types out_dir = Inl err"
  then obtain chain where
    c: "fst (find_illegal_vite_imports h st node illegal (get_module_types module_types) {})
          = Some chain"
    and e: "err = Error (format_illegal_import_chain h chain out_dir)"
    by (auto simp: prevent_illegal_vite_imports_def split: option.splits)
  from c vite_chain_static(1) have "\<forall>e \<in> set chain. \<not> dynamic e" by blast
  with e show "\<exists>chain. (\<forall>e \<in> set chain. \<not> dynamic e) \<and>
      err = Error (format_illegal_import_chain h chain out_dir)"
    by blast
qed

definition dev_root :: ModuleNode where
  "dev_root = \<lparr>node_id = Some ''/app/src/routes/index.svelte'',
     node_url = ''/src/routes/index.svelte'', node_file = Some ''/app/src/routes/index.svelte'',
     importedModules = [1, 2]\<rparr>"

definition dev_store :: module_store where
  "dev_store =
     [(0, dev_root),
      (1, \<lparr>node_id = Some ''/app/src/app.css'', node_url = ''/src/app.css'',
           node_file = Some ''/app/src/app.css'', importedModules = [3]\<rparr>),
      (2, \<lparr>node_id = Some ''/app/src/lib/db.js'', node_url = ''/src/lib/db.js'',
           node_file = Some ''/app/src/lib/db.js'', importedModules = [0, 3]\<rparr>),
      (3, \<lparr>node_id = Some ''/app/.svelte-kit/runtime/env/dynamic/private.js'',
           node_url = ''/.svelte-kit/runtime/env/dynamic/private.js'',
           node_file = Some ''/app/.svelte-kit/runtime/env/dynamic/private.js'',
           importedModules = []\<rparr>)]"

lemma dev_store_find:
  "fst (find_illegal_vite_imports sample_host dev_store dev_root
          {''/app/.svelte-kit/runtime/env/dynamic/private.js''} (get_module_types []) {}) =
     Some [\<lparr>name = ''/app/src/routes/index.svelte'', dynamic = False\<rparr>,
           \<lparr>name = ''/app/src/lib/db.js'', dynamic = False\<rparr>,
           \<lparr>name = ''/app/.svelte-kit/runtime/env/dynamic/private.js'', dynamic = False\<rparr>]"
  by (simp add: find_illegal_vite_imports.simps Let_def deref_def dev_store_def dev_root_def
      sample_host_def sample_extname_def sample_basename_def get_module_types_def)

theorem vite_chain_never_dynamic_witness:
  "fst (find_illegal_vite_imports sample_host dev_store dev_root
          {''/app/.svelte-kit/runtime/env/dynamic/private.js''} (get_module_types []) {}) =
     Some [\<lparr>name = ''/app/src/routes/index.svelte'', dynamic = False\<rparr>,
           \<lparr>name = ''/app/src/lib/db.js'', dynamic = False\<rparr>,
           \<lparr>name = ''/app/.svelte-kit/runtime/env/dynamic/private.js'', dynamic = False\<rparr>] \<and>
   (\<exists>chain. list_all (\<lambda>e. \<not> dynamic e) chain \<and>
      prevent_illegal_vite_imports sample_host dev_store dev_root
          {''/app/.svelte-kit/runtime/env/dynamic/private.js''} [] ''/app/.svelte-kit'' =
        Inl (Error (format_illegal_import_chain sample_host chain ''/app/.svelte-kit'')))"
proof -
  have "\<exists>err. prevent_illegal_vite_imports sample_host dev_store dev_root
          {''/app/.svelte-kit/runtime/env/dynamic/private.js''} [] ''/app/.svelte-kit'' = Inl err"
    by (simp add: prevent_illegal_vite_imports_def dev_store_find)
  with vite_chain_never_dynamic[of sample_host dev_store dev_root
      "{''/app/.svelte-kit/runtime/env/dynamic/private.js''}" "get_module_types []" "{}" "[]"
      "''/app/.svelte-kit''"]
    dev_store_find
  show ?thesis by (auto simp: list_all_iff)
qed

section \<open>Environment variables: \<^verbatim>\<open>get_env\<close>\<close>

text \<open>
  A JavaScript record with string keys is a map. \<^verbatim>\<open>Object.fromEntries\<close> adds the
  entries from left to right, so a later entry with the same key replaces an earlier
  one. Vite's \<^verbatim>\<open>loadEnv\<close> is a parameter; it is given by the entries of the record
  it returns, which is what \<^verbatim>\<open>Object.entries(loadEnv(mode, process.cwd(), ''))\<close>
  hands to \<^verbatim>\<open>get_env\<close>.
\<close>

definition define_property :: "string \<times> 'v \<Rightarrow> (string \<rightharpoonup> 'v) \<Rightarrow> (string \<rightharpoonup> 'v)" where
  "define_property e m = m(fst e \<mapsto> snd e)"

definition Object_fromEntries :: "(string \<times> 'v) list \<Rightarrow> (string \<rightharpoonup> 'v)" where
  "Object_fromEntries es = fold define_property es Map.empty"

record kit_env =
  env_public :: "string \<rightharpoonup> string"
  env_private :: "string \<rightharpoonup> string"

definition get_env ::
    "(string \<Rightarrow> string \<Rightarrow> string \<Rightarrow> (string \<times> string) list) \<Rightarrow> host \<Rightarrow> string \<Rightarrow> string
      \<Rightarrow> kit_env" where
  "get_env loadEnv h mode pfx =
     (let entries = loadEnv mode (process_cwd h) []
      in \<lparr>env_public = Object_fromEntries (filter (\<lambda>(k, v). prefix pfx k) entries),
          env_private = Object_fromEntries (filter (\<lambda>(k, v). \<not> prefix pfx k) entries)\<rparr>)"

lemma fold_upd_map_of:
  "fold define_property es m = m ++ map_of (rev es)"
proof (induction es arbitrary: m)
  case Nil
  then show ?case by simp
next
  case (Cons e es)
  have "fold define_property (e # es) m = fold define_property es (define_property e m)"
    by simp
  also have "\<dots> = define_property e m ++ map_of (rev es)"
    by (rule Cons.IH)
  also have "\<dots> = m ++ map_of (rev (e # es))"
    by (cases e) (simp add: define_property_def map_of_append map_add_assoc)
  finally show ?case .
qed

lemma Object_fromEntries_map_of: "Object_fromEntries es = map_of (rev es)"
  by (simp add: Object_fromEntries_def fold_upd_map_of)

lemma map_of_filter_key:
  "map_of (filter (\<lambda>(k, v). P k) xs) k = (if P k then map_of xs k else None)"
  by (induction xs) auto

lemma Object_fromEntries_filter:
  "Object_fromEntries (filter (\<lambda>(k, v). P k) es) k =
     (if P k then Object_fromEntries es k else None)"
  by (simp add: Object_fromEntries_map_of map_of_filter_key rev_filter)

lemma dom_Object_fromEntries: "dom (Object_fromEntries es) = fst ` set es"
  by (simp add: Object_fromEntries_map_of dom_map_of_conv_image_fst)

text \<open>
  Claim C8. For every mode and prefix, \<^verbatim>\<open>get_env\<close> splits the loaded entries in two:
  a key is in the public record exactly when it is a loaded key that starts with the
  prefix, and in the private record exactly when it is a loaded key that does not. The
  two records are disjoint, together they hold every loaded key, and each key keeps the
  value it was loaded with.
\<close>

theorem get_env_partitions:
  fixes loadEnv h mode pfx
  defines "entries \<equiv> loadEnv mode (process_cwd h) []"
    and "env \<equiv> get_env loadEnv h mode pfx"
  shows "dom (env_public env) = {k \<in> fst ` set entries. prefix pfx k} \<and>
         dom (env_private env) = {k \<in> fst ` set entries. \<not> prefix pfx k} \<and>
         dom (env_public env) \<inter> dom (env_private env) = {} \<and>
         dom (env_public env) \<union> dom (env_private env) = fst ` set entries \<and>
         env_public env ++ env_private env = Object_fromEntries entries \<and>
         env_public env \<subseteq>\<^sub>m Object_fromEntries entries \<and>
         env_private env \<subseteq>\<^sub>m Object_fromEntries entries"
proof -
  have pub: "env_public env k = (if prefix pfx k then Object_fromEntries entries k else None)" for k
    by (simp add: env_def entries_def get_env_def Let_def Object_fromEntries_filter)
  have priv: "env_private env k = (if prefix pfx k then None else Object_fromEntries entries k)" for k
    by (simp add: env_def entries_def get_env_def Let_def
        Object_fromEntries_filter[of "\<lambda>k. \<not> prefix pfx k"])
  have d1: "dom (env_public env) = {k \<in> fst ` set entries. prefix pfx k}"
    using dom_Object_fromEntries[of entries] by (auto simp: dom_def pub)
  have d2: "dom (env_private env) = {k \<in> fst ` set entries. \<not> prefix pfx k}"
    using dom_Object_fromEntries[of entries] by (auto simp: dom_def priv)
  have u: "env_public env ++ env_private env = Object_fromEntries entries"
    by (rule ext) (simp add: map_add_def pub priv split: option.splits)
  have s1: "env_public env \<subseteq>\<^sub>m Object_fromEntries entries"
    by (simp add: map_le_def pub dom_def)
  have s2: "env_private env \<subseteq>\<^sub>m Object_fromEntries entries"
    by (simp add: map_le_def priv dom_def)
  from d1 d2 u s1 s2 show ?thesis by auto
qed

definition sample_loadEnv :: "string \<Rightarrow> string \<Rightarrow> string \<Rightarrow> (string \<times> string) list" where
  "sample_loadEnv mode dir pfxs =
     [(''PUBLIC_API'', ''https://api.example''), (''SECRET_KEY'', ''hunter2''),
      (''PUBLIC_MODE'', mode), (''HOME'', dir)]"

lemma keys_filter: "{k \<in> fst ` set es. P k} = set (filter P (map fst es))"
  by auto

theorem get_env_partitions_witness:
  "dom (env_public (get_env sample_loadEnv sample_host ''development'' ''PUBLIC_'')) =
     {''PUBLIC_API'', ''PUBLIC_MODE''} \<and>
   dom (env_private (get_env sample_loadEnv sample_host ''development'' ''PUBLIC_'')) =
     {''SECRET_KEY'', ''HOME''} \<and>
   env_public (get_env sample_loadEnv sample_host ''development'' ''PUBLIC_'') =
     [''PUBLIC_API'' \<mapsto> ''https://api.example'', ''PUBLIC_MODE'' \<mapsto> ''development''] \<and>
   env_private (get_env sample_loadEnv sample_host ''development'' ''PUBLIC_'') =
     [''SECRET_KEY'' \<mapsto> ''hunter2'', ''HOME'' \<mapsto> ''/app'']"
proof -
  have ex: "env_public (get_env sample_loadEnv sample_host ''development'' ''PUBLIC_'') =
       [''PUBLIC_API'' \<mapsto> ''https://api.example'', ''PUBLIC_MODE'' \<mapsto> ''development'']"
    "env_private (get_env sample_loadEnv sample_host ''development'' ''PUBLIC_'') =
       [''SECRET_KEY'' \<mapsto> ''hunter2'', ''HOME'' \<mapsto> ''/app'']"
    by (simp_all add: get_env_def sample_loadEnv_def sample_host_def Object_fromEntries_def
        define_property_def fun_upd_twist)
  have s1: "{k \<in> fst ` set (sample_loadEnv ''development'' (process_cwd sample_host) []).
          prefix ''PUBLIC_'' k} = {''PUBLIC_API'', ''PUBLIC_MODE''}"
    unfolding keys_filter by (simp add: sample_loadEnv_def)
  have s2: "{k \<in> fst ` set (sample_loadEnv ''development'' (process_cwd sample_host) []).
          \<not> prefix ''PUBLIC_'' k} = {''SECRET_KEY'', ''HOME''}"
    unfolding keys_filter by (simp add: sample_loadEnv_def)
  note T = get_env_partitions[of sample_loadEnv sample_host "''development''" "''PUBLIC_''"]
  from T have d1: "dom (env_public (get_env sample_loadEnv sample_host ''development'' ''PUBLIC_'')) =
     {''PUBLIC_API'', ''PUBLIC_MODE''}"
    unfolding s1 by (rule conjunct1)
  from T have d2: "dom (env_private (get_env sample_loadEnv sample_host ''development'' ''PUBLIC_'')) =
     {''SECRET_KEY'', ''HOME''}"
    unfolding s2 by (elim conjE)
  from d1 d2 ex show ?thesis by (intro conjI)
qed

section \<open>The development server's collaborators\<close>

text \<open>
  JavaScript values, as far as the dispatcher looks at them: it tests them for
  truthiness and passes them on. An object is a map from property names to values, and
  reading a property the object does not have gives \<^verbatim>\<open>undefined\<close>.
\<close>

datatype js_value = Undefined | Null | JBool bool | JStr string | JFun string

type_synonym js_object = "string \<rightharpoonup> js_value"

fun truthy :: "js_value \<Rightarrow> bool" where
  "truthy Undefined = False"
| "truthy Null = False"
| "truthy (JBool b) = b"
| "truthy (JStr s) = (s \<noteq> [])"
| "truthy (JFun f) = True"

definition get_prop :: "js_object \<Rightarrow> string \<Rightarrow> js_value" where
  "get_prop obj k = (case obj k of None \<Rightarrow> Undefined | Some v \<Rightarrow> v)"

text \<open>
  \<^verbatim>\<open>vite.ssrLoadModule(url)\<close> resolves to the module's namespace object or rejects.
  \<^verbatim>\<open>new URL(url, 'http://localhost/').searchParams\<close> gives the query parameters in
  order, or the constructor throws. Both are parameters.
\<close>

record dev_host =
  ssrLoadModule :: "string \<Rightarrow> js_error + js_object"
  url_searchParams :: "string \<Rightarrow> js_error + (string \<times> string) list"

section \<open>Inline styles\<close>

text \<open>
  \<^verbatim>\<open>style_pattern\<close> is \<^verbatim>\<open>/\.(css|less|sass|scss|styl|stylus|pcss|postcss)$/\<close>: the text
  ends with a dot and one of the eight extensions. \<^verbatim>\<open>RegExp.test\<close> turns its argument
  into a string first, so a \<^verbatim>\<open>null\<close> file is tested as the text \<^verbatim>\<open>null\<close>.
\<close>

definition style_pattern_test :: "string \<Rightarrow> bool" where
  "style_pattern_test s =
     (\<exists>ext \<in> set [''css'', ''less'', ''sass'', ''scss'', ''styl'', ''stylus'', ''pcss'', ''postcss''].
        suffix (CHR ''.'' # ext) s)"

definition file_text :: "ModuleNode \<Rightarrow> string" where
  "file_text dep = (case node_file dep of None \<Rightarrow> ''null'' | Some f \<Rightarrow> f)"

text \<open>\<^verbatim>\<open>URLSearchParams.has\<close> and \<^verbatim>\<open>.get\<close> (the first value of the name, or \<^verbatim>\<open>null\<close>).\<close>

definition params_has :: "(string \<times> string) list \<Rightarrow> string \<Rightarrow> bool" where
  "params_has query k = (k \<in> fst ` set query)"

definition params_get :: "(string \<times> string) list \<Rightarrow> string \<Rightarrow> string option" where
  "params_get query k = map_of query k"

text \<open>The condition of the \<^verbatim>\<open>if\<close> in the loop of \<^verbatim>\<open>inline_styles\<close>.\<close>

definition is_style_dep :: "(string \<times> string) list \<Rightarrow> ModuleNode \<Rightarrow> bool" where
  "is_style_dep query dep =
     (style_pattern_test (file_text dep) \<or>
      (params_has query ''svelte'' \<and> params_get query ''type'' = Some ''style''))"

text \<open>
  \<^verbatim>\<open>inline_styles\<close> first fills the set \<^verbatim>\<open>deps\<close> with \<^verbatim>\<open>find_deps\<close> and then loops
  over it. The model starts from the collected nodes, in the set's iteration order. The
  \<^verbatim>\<open>try\<close>/\<^verbatim>\<open>catch\<close> around the load is the \<open>Inl\<close> branch that goes on with the
  styles unchanged; the URL constructor stands outside it.
\<close>

fun inline_styles_loop :: "dev_host \<Rightarrow> ModuleNode list \<Rightarrow> js_object \<Rightarrow> js_error + js_object" where
  "inline_styles_loop d [] styles = Inr styles"
| "inline_styles_loop d (dep # deps) styles =
     (case url_searchParams d (node_url dep) of
        Inl e \<Rightarrow> Inl e
      | Inr query \<Rightarrow>
          if is_style_dep query dep then
            (case ssrLoadModule d (node_url dep) of
               Inl e \<Rightarrow> inline_styles_loop d deps styles
             | Inr loaded \<Rightarrow>
                 inline_styles_loop d deps (styles(node_url dep \<mapsto> get_prop loaded ''default'')))
          else inline_styles_loop d deps styles)"

definition inline_styles :: "dev_host \<Rightarrow> ModuleNode list \<Rightarrow> js_error + js_object" where
  "inline_styles d deps = inline_styles_loop d deps Map.empty"

text \<open>
  A collected dependency contributes a style when it passes the test and its module
  loads.
\<close>

definition style_loaded :: "dev_host \<Rightarrow> ModuleNode \<Rightarrow> js_object \<Rightarrow> bool" where
  "style_loaded d dep loaded =
     ((\<exists>query. url_searchParams d (node_url dep) = Inr query \<and> is_style_dep query dep) \<and>
      ssrLoadModule d (node_url dep) = Inr loaded)"

definition styles_of :: "dev_host \<Rightarrow> ModuleNode list \<Rightarrow> js_object \<Rightarrow> js_object" where
  "styles_of d deps styles u =
     (if \<exists>dep \<in> set deps. node_url dep = u \<and> (\<exists>loaded. style_loaded d dep loaded)
      then (case ssrLoadModule d u of
              Inr loaded \<Rightarrow> Some (get_prop loaded ''default'')
            | Inl e \<Rightarrow> None)
      else styles u)"

lemma styles_of_loaded:
  "dep \<in> set deps \<Longrightarrow> style_loaded d dep loaded \<Longrightarrow>
     styles_of d deps styles (node_url dep) = Some (get_prop loaded ''default'')"
  unfolding styles_of_def style_loaded_def by auto

lemma styles_of_other:
  assumes "\<not> (\<exists>dep \<in> set deps. node_url dep = u \<and> (\<exists>loaded. style_loaded d dep loaded))"
  shows "styles_of d deps styles u = styles u"
  unfolding styles_of_def using assms by (rule if_not_P)

lemma styles_of_skip:
  assumes "\<And>loaded. \<not> style_loaded d dep loaded"
  shows "styles_of d (dep # deps) styles = styles_of d deps styles"
proof (rule ext)
  fix u
  have "(\<exists>dep' \<in> set (dep # deps). node_url dep' = u \<and> (\<exists>loaded. style_loaded d dep' loaded))
      \<longleftrightarrow> (\<exists>dep' \<in> set deps. node_url dep' = u \<and> (\<exists>loaded. style_loaded d dep' loaded))"
    using assms by auto
  then show "styles_of d (dep # deps) styles u = styles_of d deps styles u"
    by (simp only: styles_of_def)
qed

lemma styles_of_add:
  assumes "style_loaded d dep loaded"
  shows "styles_of d (dep # deps) styles =
     styles_of d deps (styles(node_url dep \<mapsto> get_prop loaded ''default''))"
proof (rule ext)
  fix u
  show "styles_of d (dep # deps) styles u =
     styles_of d deps (styles(node_url dep \<mapsto> get_prop loaded ''default'')) u"
  proof (cases "\<exists>dep' \<in> set deps. node_url dep' = u \<and> (\<exists>l. style_loaded d dep' l)")
    case True
    then show ?thesis by (auto simp: styles_of_def)
  next
    case False
    show ?thesis
    proof (cases "node_url dep = u")
      case True
      with assms have "styles_of d (dep # deps) styles u = Some (get_prop loaded ''default'')"
        using styles_of_loaded[of dep "dep # deps" d loaded styles] by simp
      with False True show ?thesis by (simp add: styles_of_other)
    next
      case neq: False
      with False have "\<not> (\<exists>dep' \<in> set (dep # deps). node_url dep' = u \<and>
          (\<exists>l. style_loaded d dep' l))"
        by simp
      with False neq show ?thesis by (simp add: styles_of_other)
    qed
  qed
qed

lemma inline_styles_loop_result:
  assumes "\<forall>dep \<in> set deps. \<exists>query. url_searchParams d (node_url dep) = Inr query"
  shows "inline_styles_loop d deps styles = Inr (styles_of d deps styles)"
  using assms
proof (induction deps arbitrary: styles)
  case Nil
  have "styles_of d [] styles = styles" by (rule ext) (simp add: styles_of_def)
  then show ?case by simp
next
  case (Cons dep deps)
  then obtain query where q: "url_searchParams d (node_url dep) = Inr query" by auto
  from Cons.prems have rest: "\<forall>dep \<in> set deps. \<exists>query. url_searchParams d (node_url dep) = Inr query"
    by simp
  note IH = Cons.IH[OF rest]
  show ?case
  proof (cases "is_style_dep query dep")
    case False
    then have "\<And>loaded. \<not> style_loaded d dep loaded" by (simp add: style_loaded_def q)
    with q False show ?thesis by (simp add: IH styles_of_skip)
  next
    case True
    show ?thesis
    proof (cases "ssrLoadModule d (node_url dep)")
      case (Inl e)
      then have "\<And>loaded. \<not> style_loaded d dep loaded" by (simp add: style_loaded_def)
      with q True Inl show ?thesis by (simp add: IH styles_of_skip)
    next
      case (Inr loaded)
      then have sl: "style_loaded d dep loaded" by (simp add: style_loaded_def q True)
      have "inline_styles_loop d (dep # deps) styles =
          inline_styles_loop d deps (styles(node_url dep \<mapsto> get_prop loaded ''default''))"
        by (simp add: q True Inr)
      also have "\<dots> = Inr (styles_of d deps (styles(node_url dep \<mapsto> get_prop loaded ''default'')))"
        by (rule IH)
      also have "\<dots> = Inr (styles_of d (dep # deps) styles)"
        by (simp only: styles_of_add[OF sl])
      finally show ?thesis .
    qed
  qed
qed

text \<open>
  Claim C9. A module that fails to load does not make \<^verbatim>\<open>inline_styles\<close> fail: the
  styles of the dependencies that did load are returned. The record has an entry
  exactly for the collected dependencies that pass the style test (a stylesheet
  extension of the file, or the query parameters \<^verbatim>\<open>svelte\<close> and \<^verbatim>\<open>type=style\<close>) and
  whose module loaded; the entry's key is the dependency's URL and its value the
  module's default export.
\<close>

theorem inline_styles_swallows_load_failures:
  assumes "\<forall>dep \<in> set deps. \<exists>query. url_searchParams d (node_url dep) = Inr query"
  shows "\<exists>styles. inline_styles d deps = Inr styles \<and>
     dom styles = {node_url dep | dep. dep \<in> set deps \<and> (\<exists>loaded. style_loaded d dep loaded)} \<and>
     (\<forall>dep \<in> set deps. \<forall>loaded. style_loaded d dep loaded
         \<longrightarrow> styles (node_url dep) = Some (get_prop loaded ''default''))"
proof -
  let ?styles = "styles_of d deps Map.empty"
  have r: "inline_styles d deps = Inr ?styles"
    unfolding inline_styles_def by (rule inline_styles_loop_result[OF assms])
  have "dom ?styles = {node_url dep | dep. dep \<in> set deps \<and> (\<exists>loaded. style_loaded d dep loaded)}"
  proof (intro set_eqI iffI)
    fix u
    assume "u \<in> dom ?styles"
    then have "\<exists>dep \<in> set deps. node_url dep = u \<and> (\<exists>loaded. style_loaded d dep loaded)"
      by (rule_tac ccontr) (simp add: styles_of_other dom_def)
    then show "u \<in> {node_url dep | dep. dep \<in> set deps \<and> (\<exists>loaded. style_loaded d dep loaded)}"
      by blast
  next
    fix u
    assume "u \<in> {node_url dep | dep. dep \<in> set deps \<and> (\<exists>loaded. style_loaded d dep loaded)}"
    then obtain dep loaded where "dep \<in> set deps" "node_url dep = u" "style_loaded d dep loaded"
      by blast
    then show "u \<in> dom ?styles"
      using styles_of_loaded[of dep deps d loaded Map.empty] by auto
  qed
  moreover have "\<forall>dep \<in> set deps. \<forall>loaded. style_loaded d dep loaded
         \<longrightarrow> ?styles (node_url dep) = Some (get_prop loaded ''default'')"
    by (simp add: styles_of_loaded)
  ultimately show ?thesis using r by blast
qed

text \<open>
  Six collected dependencies: a stylesheet that loads, a stylesheet whose load is
  rejected, a component's style block (marked by the query parameters \<^verbatim>\<open>svelte\<close>
  and \<^verbatim>\<open>type=style\<close>), a URL with \<^verbatim>\<open>type=style\<close> but without \<^verbatim>\<open>svelte\<close>, a
  \<^verbatim>\<open>.less\<close> stylesheet that loads, and a script.
\<close>

definition sample_dev :: dev_host where
  "sample_dev =
     \<lparr>ssrLoadModule = (\<lambda>u.
        if u = ''/src/app.css'' then Inr [''default'' \<mapsto> JStr ''body{margin:0}'']
        else if u = ''/src/routes/index.svelte?svelte&type=style&lang.css''
          then Inr [''default'' \<mapsto> JStr ''h1{color:red}'']
        else if u = ''/src/routes/about.svelte?type=style''
          then Inr [''default'' \<mapsto> JStr ''p{color:blue}'']
        else if u = ''/src/grid.less'' then Inr [''default'' \<mapsto> JStr ''.grid{display:grid}'']
        else if u = ''/src/lib/db.js'' then Inr [''default'' \<mapsto> JFun ''connect'']
        else Inl (Error ''failed to load'')),
      url_searchParams = (\<lambda>u.
        if u = ''/src/routes/index.svelte?svelte&type=style&lang.css''
        then Inr [(''svelte'', []), (''type'', ''style''), (''lang.css'', [])]
        else if u = ''/src/routes/about.svelte?type=style''
        then Inr [(''type'', ''style'')]
        else Inr [])\<rparr>"

definition sample_deps :: "ModuleNode list" where
  "sample_deps =
     [\<lparr>node_id = Some ''/app/src/app.css'', node_url = ''/src/app.css'',
        node_file = Some ''/app/src/app.css'', importedModules = []\<rparr>,
      \<lparr>node_id = Some ''/app/src/theme.scss'', node_url = ''/src/theme.scss'',
        node_file = Some ''/app/src/theme.scss'', importedModules = []\<rparr>,
      \<lparr>node_id = Some ''/app/src/routes/index.svelte?svelte&type=style&lang.css'',
        node_url = ''/src/routes/index.svelte?svelte&type=style&lang.css'',
        node_file = Some ''/app/src/routes/index.svelte'', importedModules = []\<rparr>,
      \<lparr>node_id = Some ''/app/src/routes/about.svelte?type=style'',
        node_url = ''/src/routes/about.svelte?type=style'',
        node_file = Some ''/app/src/routes/about.svelte'', importedModules = []\<rparr>,
      \<lparr>node_id = Some ''/app/src/grid.less'', node_url = ''/src/grid.less'',
        node_file = Some ''/app/src/grid.less'', importedModules = []\<rparr>,
      \<lparr>node_id = Some ''/app/src/lib/db.js'', node_url = ''/src/lib/db.js'',
        node_file = Some ''/app/src/lib/db.js'', importedModules = []\<rparr>]"

lemma sample_inline_styles:
  "inline_styles sample_dev sample_deps =
     Inr [''/src/app.css'' \<mapsto> JStr ''body{margin:0}'',
          ''/src/routes/index.svelte?svelte&type=style&lang.css'' \<mapsto> JStr ''h1{color:red}'',
          ''/src/grid.less'' \<mapsto> JStr ''.grid{display:grid}'']"
  by (simp add: inline_styles_def sample_dev_def sample_deps_def is_style_dep_def
      style_pattern_test_def file_text_def params_has_def params_get_def get_prop_def
      suffix_def)

theorem inline_styles_swallows_load_failures_witness:
  "ssrLoadModule sample_dev ''/src/theme.scss'' = Inl (Error ''failed to load'') \<and>
   ssrLoadModule sample_dev ''/src/routes/about.svelte?type=style'' =
     Inr [''default'' \<mapsto> JStr ''p{color:blue}''] \<and>
   inline_styles sample_dev sample_deps =
     Inr [''/src/app.css'' \<mapsto> JStr ''body{margin:0}'',
          ''/src/routes/index.svelte?svelte&type=style&lang.css'' \<mapsto> JStr ''h1{color:red}'',
          ''/src/grid.less'' \<mapsto> JStr ''.grid{display:grid}''] \<and>
   {node_url dep | dep. dep \<in> set sample_deps \<and> (\<exists>loaded. style_loaded sample_dev dep loaded)} =
     {''/src/app.css'', ''/src/routes/index.svelte?svelte&type=style&lang.css'',
      ''/src/grid.less''}"
proof -
  have urls: "\<forall>dep \<in> set sample_deps. \<exists>query. url_searchParams sample_dev (node_url dep) = Inr query"
    by (simp add: sample_dev_def sample_deps_def)
  from inline_styles_swallows_load_failures[OF urls] sample_inline_styles
  have "{node_url dep | dep. dep \<in> set sample_deps \<and> (\<exists>loaded. style_loaded sample_dev dep loaded)} =
     dom [''/src/app.css'' \<mapsto> JStr ''body{margin:0}'',
          ''/src/routes/index.svelte?svelte&type=style&lang.css'' \<mapsto> JStr ''h1{color:red}'',
          ''/src/grid.less'' \<mapsto> JStr ''.grid{display:grid}'']"
    by auto
  moreover have "ssrLoadModule sample_dev ''/src/theme.scss'' = Inl (Error ''failed to load'')"
    "ssrLoadModule sample_dev ''/src/routes/about.svelte?type=style'' =
       Inr [''default'' \<mapsto> JStr ''p{color:blue}'']"
    by (simp_all add: sample_dev_def)
  ultimately show ?thesis using sample_inline_styles by auto
qed

section \<open>The asset middleware\<close>

text \<open>
  Node's \<^verbatim>\<open>fs\<close> module is a parameter. \<^verbatim>\<open>fs.statSync(file).isDirectory()\<close> and
  \<^verbatim>\<open>fs.readdirSync(dir)\<close> throw when the path cannot be read. On a file system that
  ignores case, \<^verbatim>\<open>existsSync\<close> answers for a path whatever the case of its letters,
  while \<^verbatim>\<open>readdirSync\<close> lists the names as they are stored.
\<close>

record node_fs =
  existsSync :: "string \<Rightarrow> bool"
  statSync_isDirectory :: "string \<Rightarrow> js_error + bool"
  readdirSync :: "string \<Rightarrow> js_error + string list"

text \<open>
  \<^verbatim>\<open>has_correct_case\<close> climbs from the file to the assets directory with
  \<^verbatim>\<open>path.dirname\<close>. Nothing in the function bounds the climb (it ends because a real
  directory listing never holds the name that \<^verbatim>\<open>path.basename\<close> gives for a root), so
  the model is a partial function: \<open>None\<close> is a call that does not return.
\<close>

partial_function (option) has_correct_case ::
    "node_fs \<Rightarrow> host \<Rightarrow> string \<Rightarrow> string \<Rightarrow> (js_error + bool) option" where
  "has_correct_case fs h file assets =
     (if file = assets then Some (Inr True)
      else
        (case readdirSync fs (path_dirname h file) of
           Inl e \<Rightarrow> Some (Inl e)
         | Inr names \<Rightarrow>
             if path_basename h file \<in> set names
             then has_correct_case fs h (path_dirname h file) assets
             else Some (Inr False)))"

datatype asset_result = ServeAsset string | CallNext | AssetError js_error

text \<open>
  \<open>ServeAsset u\<close>: \<^verbatim>\<open>req.url\<close> is set to \<open>u\<close> and the request is handed to the
  \<^verbatim>\<open>sirv\<close> responder of the assets directory. \<open>CallNext\<close>: \<^verbatim>\<open>next()\<close>.
  \<open>AssetError e\<close>: the \<^verbatim>\<open>catch\<close> block, status 500 with the stack of \<open>e\<close>.
  \<open>decoded\<close> is \<^verbatim>\<open>decodeURI(new URL(base + req.url).pathname)\<close>, which may throw;
  \<open>assets\<close> is the URL prefix of the assets and \<open>files_assets\<close> the directory
  \<^verbatim>\<open>svelte_config.kit.files.assets\<close>.
\<close>

definition asset_middleware ::
    "node_fs \<Rightarrow> host \<Rightarrow> (string \<Rightarrow> string) \<Rightarrow> string \<Rightarrow> string \<Rightarrow> js_error + string
      \<Rightarrow> asset_result option" where
  "asset_middleware fs h encodeURI assets files_assets decoded_or_error =
     (case decoded_or_error of
        Inl e \<Rightarrow> Some (AssetError e)
      | Inr decoded \<Rightarrow>
          if prefix assets decoded then
            (let pathname = drop (length assets) decoded;
                 file = files_assets @ pathname
             in if existsSync fs file then
                  (case statSync_isDirectory fs file of
                     Inl e \<Rightarrow> Some (AssetError e)
                   | Inr is_dir \<Rightarrow>
                       if \<not> is_dir then
                         (case has_correct_case fs h file files_assets of
                            None \<Rightarrow> None
                          | Some (Inl e) \<Rightarrow> Some (AssetError e)
                          | Some (Inr correct) \<Rightarrow>
                              if correct then Some (ServeAsset (encodeURI pathname))
                              else Some CallNext)
                       else Some CallNext)
                else Some CallNext)
          else Some CallNext)"

text \<open>
  \<open>exact_case\<close>: every component of the path from the file up to the assets directory
  is listed in its parent directory under exactly the requested name.
  \<open>case_differs\<close>: on the way up, the listings can be read and one of them does not
  hold the requested name.
\<close>

inductive exact_case :: "node_fs \<Rightarrow> host \<Rightarrow> string \<Rightarrow> string \<Rightarrow> bool"
  for fs h assets
where
  exact_root: "exact_case fs h assets assets"
| exact_step:
    "file \<noteq> assets \<Longrightarrow> readdirSync fs (path_dirname h file) = Inr names \<Longrightarrow>
     path_basename h file \<in> set names \<Longrightarrow> exact_case fs h assets (path_dirname h file) \<Longrightarrow>
     exact_case fs h assets file"

inductive case_differs :: "node_fs \<Rightarrow> host \<Rightarrow> string \<Rightarrow> string \<Rightarrow> bool"
  for fs h assets
where
  differs_here:
    "file \<noteq> assets \<Longrightarrow> readdirSync fs (path_dirname h file) = Inr names \<Longrightarrow>
     path_basename h file \<notin> set names \<Longrightarrow> case_differs fs h assets file"
| differs_above:
    "file \<noteq> assets \<Longrightarrow> readdirSync fs (path_dirname h file) = Inr names \<Longrightarrow>
     path_basename h file \<in> set names \<Longrightarrow> case_differs fs h assets (path_dirname h file) \<Longrightarrow>
     case_differs fs h assets file"


lemma exact_case_correct:
  "exact_case fs h assets file \<Longrightarrow> has_correct_case fs h file assets = Some (Inr True)"
proof (induction rule: exact_case.induct)
  case exact_root
  then show ?case by (subst has_correct_case.simps) simp
next
  case (exact_step f names)
  then show ?case by (subst has_correct_case.simps) simp
qed

lemma case_differs_incorrect:
  "case_differs fs h assets file \<Longrightarrow> has_correct_case fs h file assets = Some (Inr False)"
proof (induction rule: case_differs.induct)
  case (differs_here f names)
  then show ?case by (subst has_correct_case.simps) simp
next
  case (differs_above f names)
  then show ?case by (subst has_correct_case.simps) simp
qed

lemma has_correct_case_result:
  assumes "has_correct_case fs h file assets = Some y"
  shows "(y = Inr True \<longrightarrow> exact_case fs h assets file) \<and>
     (y = Inr False \<longrightarrow> case_differs fs h assets file)"
  using assms
proof (rule has_correct_case.raw_induct[rotated 1, where P =
    "\<lambda>fs h file assets y. (y = Inr True \<longrightarrow> exact_case fs h assets file) \<and>
       (y = Inr False \<longrightarrow> case_differs fs h assets file)"], goal_cases)
  case (1 rec fs h f assets y)
  show ?case
  proof (cases "f = assets")
    case True
    with 1(2) show ?thesis by (auto intro: exact_root)
  next
    case False
    show ?thesis
    proof (cases "readdirSync fs (path_dirname h f)")
      case (Inl e)
      with False 1(2) show ?thesis by auto
    next
      case (Inr names)
      show ?thesis
      proof (cases "path_basename h f \<in> set names")
        case True
        with False Inr 1(2) have "rec fs h (path_dirname h f) assets = Some y" by simp
        from 1(1)[OF this] False Inr True show ?thesis
          by (auto intro: exact_step differs_above)
      next
        case nin: False
        with False Inr 1(2) have "y = Inr False" by simp
        with False Inr nin show ?thesis by (auto intro: differs_here)
      qed
    qed
  qed
qed

lemma has_correct_case_True_iff:
  "has_correct_case fs h file assets = Some (Inr True) \<longleftrightarrow> exact_case fs h assets file"
  using has_correct_case_result exact_case_correct by blast

text \<open>
  Claim C6. The asset middleware hands a request to the static asset responder exactly
  when the decoded pathname starts with the assets path, the mapped file exists, is
  not a directory, and every component of its path, up to the assets directory, is
  listed on disk under exactly the requested name. When the file is there (the file
  system found it) but the case of a component differs from the name on disk, the
  middleware calls \<^verbatim>\<open>next()\<close> and serves nothing.
\<close>

theorem asset_served_iff_exact_case:
  fixes fs h encodeURI assets files_assets decoded
  defines "file \<equiv> files_assets @ drop (length assets) decoded"
  shows
    "(asset_middleware fs h encodeURI assets files_assets (Inr decoded) = Some (ServeAsset u)
        \<longleftrightarrow> prefix assets decoded \<and> existsSync fs file \<and>
            statSync_isDirectory fs file = Inr False \<and> exact_case fs h files_assets file \<and>
            u = encodeURI (drop (length assets) decoded)) \<and>
     (prefix assets decoded \<and> existsSync fs file \<and> statSync_isDirectory fs file = Inr False \<and>
      case_differs fs h files_assets file
        \<longrightarrow> asset_middleware fs h encodeURI assets files_assets (Inr decoded) = Some CallNext)"
proof (intro conjI impI)
  show "asset_middleware fs h encodeURI assets files_assets (Inr decoded) = Some (ServeAsset u)
        \<longleftrightarrow> prefix assets decoded \<and> existsSync fs file \<and>
            statSync_isDirectory fs file = Inr False \<and> exact_case fs h files_assets file \<and>
            u = encodeURI (drop (length assets) decoded)"
    unfolding file_def asset_middleware_def
    by (auto simp: Let_def has_correct_case_True_iff[symmetric]
        split: sum.splits option.splits if_splits)
next
  assume "prefix assets decoded \<and> existsSync fs file \<and> statSync_isDirectory fs file = Inr False \<and>
      case_differs fs h files_assets file"
  then show "asset_middleware fs h encodeURI assets files_assets (Inr decoded) = Some CallNext"
    unfolding file_def asset_middleware_def
    by (simp add: Let_def case_differs_incorrect)
qed

definition folding_fs :: node_fs where
  "folding_fs =
     \<lparr>existsSync = (\<lambda>p. p \<in> set [''static'', ''static/x.png'', ''static/X.png'', ''static/X.PNG'']),
      statSync_isDirectory = (\<lambda>p. Inr (p = ''static'')),
      readdirSync = (\<lambda>p. if p = ''static'' then Inr [''x.png''] else Inl (Error ''ENOENT''))\<rparr>"

theorem asset_served_iff_exact_case_witness:
  "asset_middleware folding_fs sample_host (\<lambda>s. s) ''/_svelte_kit_assets'' ''static''
      (Inr ''/_svelte_kit_assets/x.png'') = Some (ServeAsset ''/x.png'') \<and>
   exact_case folding_fs sample_host ''static'' ''static/x.png'' \<and>
   existsSync folding_fs ''static/X.PNG'' \<and>
   case_differs folding_fs sample_host ''static'' ''static/X.PNG'' \<and>
   asset_middleware folding_fs sample_host (\<lambda>s. s) ''/_svelte_kit_assets'' ''static''
      (Inr ''/_svelte_kit_assets/X.PNG'') = Some CallNext"
proof -
  have dn: "path_dirname sample_host ''static/x.png'' = ''static''"
    "path_dirname sample_host ''static/X.PNG'' = ''static''"
    "path_basename sample_host ''static/x.png'' = ''x.png''"
    "path_basename sample_host ''static/X.PNG'' = ''X.PNG''"
    by (simp_all add: sample_host_def sample_dirname_def sample_basename_def)
  have ex: "exact_case folding_fs sample_host ''static'' ''static/x.png''"
    by (rule exact_step[where names = "[''x.png'']"])
       (simp_all add: dn folding_fs_def exact_root)
  have df: "case_differs folding_fs sample_host ''static'' ''static/X.PNG''"
    by (rule differs_here[where names = "[''x.png'']"]) (simp_all add: dn folding_fs_def)
  have e1: "existsSync folding_fs ''static/x.png''" "existsSync folding_fs ''static/X.PNG''"
    "statSync_isDirectory folding_fs ''static/x.png'' = Inr False"
    "statSync_isDirectory folding_fs ''static/X.PNG'' = Inr False"
    by (simp_all add: folding_fs_def)
  note T1 = asset_served_iff_exact_case[of folding_fs sample_host "\<lambda>s. s" "''/_svelte_kit_assets''"
      "''static''" "''/_svelte_kit_assets/x.png''" "''/x.png''"]
  note T2 = asset_served_iff_exact_case[of folding_fs sample_host "\<lambda>s. s" "''/_svelte_kit_assets''"
      "''static''" "''/_svelte_kit_assets/X.PNG''" "''/x.png''"]
  from T1 ex e1 have "asset_middleware folding_fs sample_host (\<lambda>s. s) ''/_svelte_kit_assets'' ''static''
      (Inr ''/_svelte_kit_assets/x.png'') = Some (ServeAsset ''/x.png'')"
    by simp
  moreover from T2 df e1 have "asset_middleware folding_fs sample_host (\<lambda>s. s)
      ''/_svelte_kit_assets'' ''static'' (Inr ''/_svelte_kit_assets/X.PNG'') = Some CallNext"
    by simp
  ultimately show ?thesis using ex df e1 by simp
qed

section \<open>The request dispatcher\<close>

subsection \<open>Hooks\<close>

text \<open>
  \<^verbatim>\<open>a || b\<close> on values. The dispatcher builds the object \<^verbatim>\<open>hooks\<close> as a literal with
  exactly four properties, each the user's hook or its default, and then tests
  \<^verbatim>\<open>hooks.getContext\<close> and \<^verbatim>\<open>hooks.serverFetch\<close>.
\<close>

definition js_or :: "js_value \<Rightarrow> js_value \<Rightarrow> js_value" where
  "js_or a b = (if truthy a then a else b)"

definition make_hooks :: "js_object \<Rightarrow> js_object" where
  "make_hooks user_hooks =
     [''getSession'' \<mapsto> js_or (get_prop user_hooks ''getSession'') (JFun ''default getSession''),
      ''handle'' \<mapsto> js_or (get_prop user_hooks ''handle'') (JFun ''default handle''),
      ''handleError'' \<mapsto> js_or (get_prop user_hooks ''handleError'') (JFun ''default handleError''),
      ''externalFetch'' \<mapsto> js_or (get_prop user_hooks ''externalFetch'') (JFun ''fetch'')]"

definition check_legacy_hooks :: "js_object \<Rightarrow> js_error + unit" where
  "check_legacy_hooks hooks =
     (if truthy (get_prop hooks ''getContext'')
      then Inl (Error ''The getContext hook has been removed. See https://kit.svelte.dev/docs/hooks'')
      else if truthy (get_prop hooks ''serverFetch'')
      then Inl (Error ''The serverFetch hook has been renamed to externalFetch.'')
      else Inr ())"

subsection \<open>Requests, responses and the collaborators of one request\<close>

record response =
  status :: nat
  body :: string

text \<open>The error that \<^verbatim>\<open>getRequest\<close> rejects with: \<^verbatim>\<open>err.status\<close> and \<^verbatim>\<open>err.reason\<close>.\<close>

record request_error =
  err_status :: "nat option"
  err_reason :: "string option"

record dev_config =
  paths_base :: string
  fs_strict :: bool
  fs_allow :: "string list"
  runtime_base :: string
  hooks_file :: string
  root_url :: string
  config_mode :: string
  publicPrefix :: string

text \<open>
  What the collaborators answer while one request is handled:
  \<open>decoded_pathname\<close> is \<^verbatim>\<open>decodeURI(new URL(base + req.url).pathname)\<close>,
  \<open>resolve_file\<close> is \<^verbatim>\<open>posixify(path.resolve(...))\<close>, \<open>resolve_entry_result\<close> is
  \<^verbatim>\<open>resolve_entry(svelte_config.kit.files.hooks)\<close>, \<open>respond\<close> is the render
  function, called with the request, the hooks and the public environment.
  \<open>serve_static_middleware\<close> is the entry of Vite's middleware stack named
  \<^verbatim>\<open>viteServeStaticMiddleware\<close>, \<open>None\<close> when \<^verbatim>\<open>find\<close> returns \<^verbatim>\<open>undefined\<close>; for
  a request it tells whether the responder serves a file (\<open>True\<close>) or declines and
  calls the \<^verbatim>\<open>next\<close> it was given. The first call of the responder
  (\<^verbatim>\<open>handle(req, res)\<close>) gives it no \<^verbatim>\<open>next\<close>, so declining there throws; the call
  after a rendered 404 gives it the function that sends the rendered response.
\<close>

record dev_io =
  decoded_pathname :: "js_error + string"
  resolve_file :: "string \<Rightarrow> string"
  resolve_entry_result :: "string option"
  getRequest :: "request_error + string"
  load_template :: "js_error + string"
  respond :: "string \<Rightarrow> js_object \<Rightarrow> (string \<rightharpoonup> string) \<Rightarrow> js_error + response"
  serve_static_middleware :: "(string \<Rightarrow> bool) option"

text \<open>
  How a request ends: the static responder took it; \<^verbatim>\<open>not_found\<close> (status 404 with a
  message); \<^verbatim>\<open>res.statusCode = n; res.end(text)\<close> after a rejected \<^verbatim>\<open>getRequest\<close>;
  \<^verbatim>\<open>setResponse(res, rendered)\<close>; or the \<^verbatim>\<open>catch\<close> block, status 500 with the stack
  of the error.
\<close>

datatype dispatch_result =
    HandledByStatic
  | NotFound string
  | EndedWith nat string
  | SetResponse response
  | Respond500 js_error

definition undefined_handle :: js_error where
  "undefined_handle = Error ''TypeError: serve_static_middleware is undefined''"

definition next_undefined :: js_error where
  "next_undefined = Error ''TypeError: next is not a function''"

text \<open>
  Calling an export of a loaded module, as in \<^verbatim>\<open>set_private_env(env.private)\<close>: a
  value that is no function cannot be called. The functions called here are the
  setters of the kit runtime's modules, which store their argument and return.
\<close>

definition call_function :: "js_value \<Rightarrow> string \<Rightarrow> js_error + unit" where
  "call_function f fname =
     (case f of
        JFun code \<Rightarrow> Inr ()
      | _ \<Rightarrow> Inl (Error (''TypeError: '' @ fname @ '' is not a function'')))"

definition or_500 ::
    "js_error + 'a \<Rightarrow> ('a \<Rightarrow> dispatch_result + 'b) \<Rightarrow> dispatch_result + 'b" where
  "or_500 r k = (case r of Inl e \<Rightarrow> Inl (Respond500 e) | Inr x \<Rightarrow> k x)"

definition fs_allowed :: "dev_config \<Rightarrow> string \<Rightarrow> bool" where
  "fs_allowed cfg file =
     (\<not> fs_strict cfg \<or> (\<exists>dir \<in> set (fs_allow cfg). prefix dir file))"

definition is_file_check :: "node_fs \<Rightarrow> string \<Rightarrow> js_error + bool" where
  "is_file_check fs file =
     (if existsSync fs file
      then (case statSync_isDirectory fs file of Inl e \<Rightarrow> Inl e | Inr is_dir \<Rightarrow> Inr (\<not> is_dir))
      else Inr False)"

subsection \<open>The middleware\<close>

text \<open>
  \<open>render_stage\<close> is the body of the \<^verbatim>\<open>try\<close> block up to the call of the render
  function: \<open>Inl\<close> when the request ends before a response was rendered, \<open>Inr\<close> with
  the rendered response otherwise. Its second half, from the loading of the
  environment modules on, is \<open>load_and_render\<close>. \<open>dispatch\<close> adds the last
  statement of the block. Every \<^verbatim>\<open>await vite.ssrLoadModule(...)\<close> may reject, and
  each of the calls \<^verbatim>\<open>set_private_env(env.private)\<close>, \<^verbatim>\<open>set_public_env(env.public)\<close>
  and \<^verbatim>\<open>paths.set_paths(...)\<close> throws when the loaded module has no such function;
  either ends the request in the \<^verbatim>\<open>catch\<close> block. What the setters store is state
  of the runtime's modules that only the render function reads; the render function
  is given the public environment as an argument as well.
\<close>

definition load_and_render ::
    "host \<Rightarrow> dev_host \<Rightarrow> (string \<Rightarrow> string \<Rightarrow> string \<Rightarrow> (string \<times> string) list)
      \<Rightarrow> dev_io \<Rightarrow> dev_config \<Rightarrow> dispatch_result + response" where
  "load_and_render h d loadEnv io cfg =
     or_500 (ssrLoadModule d (runtime_base cfg @ ''/env-private.js'')) (\<lambda>env_private_module.
     or_500 (ssrLoadModule d (runtime_base cfg @ ''/env-public.js'')) (\<lambda>env_public_module.
     let env = get_env loadEnv h (config_mode cfg) (publicPrefix cfg) in
     or_500 (call_function (get_prop env_private_module ''set_private_env'')
               ''set_private_env'') (\<lambda>private_set.
     or_500 (call_function (get_prop env_public_module ''set_public_env'')
               ''set_public_env'') (\<lambda>public_set.
     or_500 (case resolve_entry_result io of
               None \<Rightarrow> Inr Map.empty
             | Some entry \<Rightarrow> ssrLoadModule d (''/'' @ hooks_file cfg)) (\<lambda>user_hooks.
     let hooks = make_hooks user_hooks in
     or_500 (check_legacy_hooks hooks) (\<lambda>checked.
     or_500 (ssrLoadModule d (root_url cfg)) (\<lambda>root.
     or_500 (ssrLoadModule d (runtime_base cfg @ ''/paths.js'')) (\<lambda>paths.
     or_500 (call_function (get_prop paths ''set_paths'') ''paths.set_paths'') (\<lambda>paths_set.
     (case getRequest io of
        Inl err \<Rightarrow>
          Inl (EndedWith
            (case err_status err of None \<Rightarrow> 400 | Some n \<Rightarrow> if n = 0 then 400 else n)
            (case err_reason err of
               None \<Rightarrow> ''Invalid request body''
             | Some r \<Rightarrow> if r = [] then ''Invalid request body'' else r))
      | Inr request \<Rightarrow>
          or_500 (load_template io) (\<lambda>template.
          or_500 (respond io request hooks (env_public env)) (\<lambda>rendered.
          Inr rendered))))))))))))"

definition render_stage ::
    "node_fs \<Rightarrow> host \<Rightarrow> dev_host \<Rightarrow> (string \<Rightarrow> string \<Rightarrow> string \<Rightarrow> (string \<times> string) list)
      \<Rightarrow> dev_io \<Rightarrow> dev_config \<Rightarrow> string \<Rightarrow> dispatch_result + response" where
  "render_stage fs h d loadEnv io cfg req_url =
     or_500 (decoded_pathname io) (\<lambda>decoded.
     let file = resolve_file io (drop 1 decoded) in
     or_500 (is_file_check fs file) (\<lambda>is_file.
     let allowed = fs_allowed cfg file in
     if is_file \<and> allowed then
       (case serve_static_middleware io of
          None \<Rightarrow> Inl (Respond500 undefined_handle)
        | Some serves \<Rightarrow>
            if serves req_url then Inl HandledByStatic else Inl (Respond500 next_undefined))
     else if \<not> prefix (paths_base cfg) decoded then
       Inl (NotFound (''Not found (did you mean '' @ paths_base cfg @ req_url @ ''?)''))
     else load_and_render h d loadEnv io cfg))"

definition send_rendered :: "dev_io \<Rightarrow> string \<Rightarrow> response \<Rightarrow> dispatch_result" where
  "send_rendered io req_url rendered =
     (if status rendered = 404 then
        (case serve_static_middleware io of
           None \<Rightarrow> Respond500 undefined_handle
         | Some serves \<Rightarrow> if serves req_url then HandledByStatic else SetResponse rendered)
      else SetResponse rendered)"

definition dispatch ::
    "node_fs \<Rightarrow> host \<Rightarrow> dev_host \<Rightarrow> (string \<Rightarrow> string \<Rightarrow> string \<Rightarrow> (string \<times> string) list)
      \<Rightarrow> dev_io \<Rightarrow> dev_config \<Rightarrow> string \<Rightarrow> dispatch_result" where
  "dispatch fs h d loadEnv io cfg req_url =
     (case render_stage fs h d loadEnv io cfg req_url of
        Inl ended \<Rightarrow> ended
      | Inr rendered \<Rightarrow> send_rendered io req_url rendered)"

lemma make_hooks_dom:
  "dom (make_hooks user_hooks) = {''getSession'', ''handle'', ''handleError'', ''externalFetch''}"
  by (auto simp: make_hooks_def)

lemma legacy_check_passes: "check_legacy_hooks (make_hooks user_hooks) = Inr ()"
proof -
  have "make_hooks user_hooks ''getContext'' = None" "make_hooks user_hooks ''serverFetch'' = None"
    by (simp_all add: make_hooks_def)
  then show ?thesis by (simp add: check_legacy_hooks_def get_prop_def)
qed

lemma load_and_render_static_irrelevant:
  "load_and_render h d loadEnv (io\<lparr>serve_static_middleware := s\<rparr>) cfg =
     load_and_render h d loadEnv io cfg"
  by (simp add: load_and_render_def cong: sum.case_cong)

lemma render_stage_static_irrelevant:
  assumes "render_stage fs h d loadEnv io cfg req_url = Inr rendered"
  shows "render_stage fs h d loadEnv (io\<lparr>serve_static_middleware := s\<rparr>) cfg req_url = Inr rendered"
proof (cases "decoded_pathname io")
  case (Inl e)
  with assms show ?thesis by (simp add: render_stage_def or_500_def)
next
  case (Inr decoded)
  let ?file = "resolve_file io (drop 1 decoded)"
  show ?thesis
  proof (cases "is_file_check fs ?file")
    case (Inl e)
    with assms Inr show ?thesis by (simp add: render_stage_def or_500_def)
  next
    case isf: (Inr is_file)
    show ?thesis
    proof (cases "is_file \<and> fs_allowed cfg ?file")
      case True
      with assms Inr isf show ?thesis
        by (simp add: render_stage_def or_500_def split: option.splits if_splits)
    next
      case False
      with assms Inr isf show ?thesis
        by (auto simp: render_stage_def or_500_def load_and_render_static_irrelevant
            split: if_splits)
    qed
  qed
qed

text \<open>
  Claim C7. Once the render function has answered, the dispatcher turns to the static
  responder exactly when the response has status 404: then the responder either serves
  the file, or it calls \<^verbatim>\<open>next\<close> and the rendered 404 response is sent. A response
  with any other status is sent as it is, whatever the static responder would do, and
  also when Vite's stack holds no static middleware at all. (With a 404 and no static
  middleware, reading \<^verbatim>\<open>.handle\<close> of \<^verbatim>\<open>undefined\<close> throws and the request ends in the
  \<^verbatim>\<open>catch\<close> block.)
\<close>

theorem static_fallback_only_on_404:
  assumes "render_stage fs h d loadEnv io cfg req_url = Inr rendered"
  shows "(status rendered \<noteq> 404 \<longrightarrow>
            (\<forall>s. dispatch fs h d loadEnv (io\<lparr>serve_static_middleware := s\<rparr>) cfg req_url
                   = SetResponse rendered)) \<and>
         (status rendered = 404 \<longrightarrow>
            (\<forall>serves. serve_static_middleware io = Some serves \<longrightarrow>
               dispatch fs h d loadEnv io cfg req_url =
                 (if serves req_url then HandledByStatic else SetResponse rendered)))"
proof (intro conjI impI allI)
  fix s
  assume "status rendered \<noteq> 404"
  with render_stage_static_irrelevant[OF assms, of s]
  show "dispatch fs h d loadEnv (io\<lparr>serve_static_middleware := s\<rparr>) cfg req_url
      = SetResponse rendered"
    by (simp add: dispatch_def send_rendered_def)
next
  fix serves
  assume "status rendered = 404" "serve_static_middleware io = Some serves"
  with assms show "dispatch fs h d loadEnv io cfg req_url =
      (if serves req_url then HandledByStatic else SetResponse rendered)"
    by (simp add: dispatch_def send_rendered_def)
qed

subsection \<open>A development server for the examples\<close>

definition sample_config :: dev_config where
  "sample_config =
     \<lparr>paths_base = [], fs_strict = True, fs_allow = [''/app''],
      runtime_base = ''/@fs/app/node_modules/@sveltejs/kit/src/runtime'',
      hooks_file = ''src/hooks'', root_url = ''/.svelte-kit/generated/root.svelte'',
      config_mode = ''development'', publicPrefix = ''PUBLIC_''\<rparr>"

text \<open>
  The modules of the kit runtime export their setters. The hooks module of this server
  still exports the removed \<^verbatim>\<open>getContext\<close>.
\<close>

definition legacy_dev :: dev_host where
  "legacy_dev =
     \<lparr>ssrLoadModule = (\<lambda>u.
        if u = ''/src/hooks''
          then Inr [''getContext'' \<mapsto> JFun ''getContext'', ''handle'' \<mapsto> JFun ''handle'']
        else if u = ''/@fs/app/node_modules/@sveltejs/kit/src/runtime/env-private.js''
          then Inr [''set_private_env'' \<mapsto> JFun ''set_private_env'']
        else if u = ''/@fs/app/node_modules/@sveltejs/kit/src/runtime/env-public.js''
          then Inr [''set_public_env'' \<mapsto> JFun ''set_public_env'']
        else if u = ''/@fs/app/node_modules/@sveltejs/kit/src/runtime/paths.js''
          then Inr [''set_paths'' \<mapsto> JFun ''set_paths'']
        else if u = ''/.svelte-kit/generated/root.svelte''
          then Inr [''default'' \<mapsto> JFun ''Root'']
        else Inl (Error ''failed to load'')),
      url_searchParams = (\<lambda>u. Inr [])\<rparr>"

definition sample_io :: "string \<Rightarrow> dev_io" where
  "sample_io pathname =
     \<lparr>decoded_pathname = Inr pathname,
      resolve_file = (\<lambda>p. ''/app/'' @ p),
      resolve_entry_result = Some ''/app/src/hooks.js'',
      getRequest = Inr (''GET '' @ pathname),
      load_template = Inr ''<html>%sveltekit.body%</html>'',
      respond = (\<lambda>request hooks public_env.
        if request = ''GET /about'' then Inr \<lparr>status = 200, body = ''<h1>about</h1>''\<rparr>
        else Inr \<lparr>status = 404, body = ''Not found''\<rparr>),
      serve_static_middleware = Some (\<lambda>u. u = ''/favicon.png'')\<rparr>"

lemma sample_render_stage:
  "render_stage folding_fs sample_host legacy_dev sample_loadEnv (sample_io pathname) sample_config
      pathname =
     (if pathname = ''/about'' then Inr \<lparr>status = 200, body = ''<h1>about</h1>''\<rparr>
      else Inr \<lparr>status = 404, body = ''Not found''\<rparr>)"
proof -
  have "\<not> existsSync folding_fs (''/app/'' @ drop 1 pathname)"
    by (simp add: folding_fs_def)
  then show ?thesis
    by (simp add: render_stage_def load_and_render_def or_500_def is_file_check_def
        sample_io_def sample_config_def legacy_dev_def legacy_check_passes
        call_function_def get_prop_def)
qed

text \<open>
  A runtime module without its setter: the call throws and the request ends in the
  \<^verbatim>\<open>catch\<close> block, before the hooks are looked at.
\<close>

lemma missing_setter_is_500:
  "load_and_render sample_host (legacy_dev\<lparr>ssrLoadModule := (\<lambda>u. Inr Map.empty)\<rparr>)
      sample_loadEnv (sample_io ''/about'') sample_config =
     Inl (Respond500 (Error ''TypeError: set_private_env is not a function''))"
  by (simp add: load_and_render_def or_500_def call_function_def get_prop_def)

text \<open>
  A file that exists and may be served, which the static responder declines: it was
  given no \<^verbatim>\<open>next\<close>, the call throws, and the request ends in the \<^verbatim>\<open>catch\<close> block.
\<close>

lemma declined_static_file_is_500:
  "dispatch folding_fs sample_host legacy_dev sample_loadEnv
     ((sample_io ''/static/x.png'')\<lparr>resolve_file := (\<lambda>p. p), serve_static_middleware := Some (\<lambda>u. False)\<rparr>)
     (sample_config\<lparr>fs_strict := False\<rparr>) ''/static/x.png'' = Respond500 next_undefined"
  by (simp add: dispatch_def render_stage_def or_500_def is_file_check_def fs_allowed_def
      sample_io_def sample_config_def folding_fs_def)

theorem static_fallback_only_on_404_witness:
  "render_stage folding_fs sample_host legacy_dev sample_loadEnv (sample_io ''/about'') sample_config
      ''/about'' = Inr \<lparr>status = 200, body = ''<h1>about</h1>''\<rparr> \<and>
   dispatch folding_fs sample_host legacy_dev sample_loadEnv
      ((sample_io ''/about'')\<lparr>serve_static_middleware := Some (\<lambda>u. True)\<rparr>) sample_config ''/about''
     = SetResponse \<lparr>status = 200, body = ''<h1>about</h1>''\<rparr> \<and>
   render_stage folding_fs sample_host legacy_dev sample_loadEnv (sample_io ''/missing'') sample_config
      ''/missing'' = Inr \<lparr>status = 404, body = ''Not found''\<rparr> \<and>
   dispatch folding_fs sample_host legacy_dev sample_loadEnv (sample_io ''/missing'') sample_config
      ''/missing'' = SetResponse \<lparr>status = 404, body = ''Not found''\<rparr> \<and>
   dispatch folding_fs sample_host legacy_dev sample_loadEnv (sample_io ''/favicon.png'') sample_config
      ''/favicon.png'' = HandledByStatic"
proof -
  have a: "render_stage folding_fs sample_host legacy_dev sample_loadEnv (sample_io ''/about'')
      sample_config ''/about'' = Inr \<lparr>status = 200, body = ''<h1>about</h1>''\<rparr>"
    by (simp add: sample_render_stage)
  have m: "render_stage folding_fs sample_host legacy_dev sample_loadEnv (sample_io ''/missing'')
      sample_config ''/missing'' = Inr \<lparr>status = 404, body = ''Not found''\<rparr>"
    by (simp add: sample_render_stage)
  have f: "render_stage folding_fs sample_host legacy_dev sample_loadEnv (sample_io ''/favicon.png'')
      sample_config ''/favicon.png'' = Inr \<lparr>status = 404, body = ''Not found''\<rparr>"
    by (simp add: sample_render_stage)
  have s: "serve_static_middleware (sample_io p) = Some (\<lambda>u. u = ''/favicon.png'')" for p
    by (simp add: sample_io_def)
  from static_fallback_only_on_404[OF a]
  have "dispatch folding_fs sample_host legacy_dev sample_loadEnv
      ((sample_io ''/about'')\<lparr>serve_static_middleware := Some (\<lambda>u. True)\<rparr>) sample_config ''/about''
     = SetResponse \<lparr>status = 200, body = ''<h1>about</h1>''\<rparr>"
    by simp
  moreover from static_fallback_only_on_404[OF m] s
  have "dispatch folding_fs sample_host legacy_dev sample_loadEnv (sample_io ''/missing'')
      sample_config ''/missing'' = SetResponse \<lparr>status = 404, body = ''Not found''\<rparr>"
    by simp
  moreover from static_fallback_only_on_404[OF f] s
  have "dispatch folding_fs sample_host legacy_dev sample_loadEnv (sample_io ''/favicon.png'')
      sample_config ''/favicon.png'' = HandledByStatic"
    by simp
  ultimately show ?thesis using a m by simp
qed

text \<open>
  Claim C2 says that a hooks module exporting \<^verbatim>\<open>getContext\<close> (or \<^verbatim>\<open>serverFetch\<close>) makes
  the dispatcher fail with the migration error. The two tests read the object
  \<^verbatim>\<open>hooks\<close> that the dispatcher has just built from four fixed properties, not the
  user's module, so they never hold: whatever the module exports, the check passes
  (the same test on the user's module would throw the migration error), and the
  request of the example server, whose hooks module exports \<^verbatim>\<open>getContext\<close>, is
  rendered and answered with status 200.
\<close>

theorem removed_hook_is_not_rejected:
  "check_legacy_hooks (make_hooks user_hooks) = Inr () \<and>
   check_legacy_hooks [''getContext'' \<mapsto> JFun ''getContext'', ''handle'' \<mapsto> JFun ''handle''] =
     Inl (Error ''The getContext hook has been removed. See https://kit.svelte.dev/docs/hooks'') \<and>
   ssrLoadModule legacy_dev (''/'' @ hooks_file sample_config) =
     Inr [''getContext'' \<mapsto> JFun ''getContext'', ''handle'' \<mapsto> JFun ''handle''] \<and>
   dispatch folding_fs sample_host legacy_dev sample_loadEnv (sample_io ''/about'') sample_config
      ''/about'' = SetResponse \<lparr>status = 200, body = ''<h1>about</h1>''\<rparr>"
proof -
  have "dispatch folding_fs sample_host legacy_dev sample_loadEnv (sample_io ''/about'') sample_config
      ''/about'' = SetResponse \<lparr>status = 200, body = ''<h1>about</h1>''\<rparr>"
    by (simp add: dispatch_def sample_render_stage send_rendered_def)
  moreover have "ssrLoadModule legacy_dev (''/'' @ hooks_file sample_config) =
     Inr [''getContext'' \<mapsto> JFun ''getContext'', ''handle'' \<mapsto> JFun ''handle'']"
    by (simp add: legacy_dev_def sample_config_def)
  moreover have "check_legacy_hooks
      [''getContext'' \<mapsto> JFun ''getContext'', ''handle'' \<mapsto> JFun ''handle''] =
     Inl (Error ''The getContext hook has been removed. See https://kit.svelte.dev/docs/hooks'')"
    by (simp add: check_legacy_hooks_def get_prop_def)
  ultimately show ?thesis by (simp add: legacy_check_passes)
qed

end
